theory Spec2Isabelle
  imports Complex_Main "HOL-Library.Word" "HOL-Library.AList" "HOL-Library.Countable"
    "HOL-Library.Log_Nat"
begin

unbundle bit_operations_syntax

section \<open>Location identity\<close>

text \<open>
  \<^verbatim>\<open>type Location string\<close>; \<^verbatim>\<open>Location.ID()\<close> feeds the bytes of the name to
  \<^verbatim>\<open>fnv.New64()\<close> and returns \<^verbatim>\<open>int64(hasher.Sum64())\<close>. \<^verbatim>\<open>hash/fnv\<close> New64 is the 64-bit
  FNV-1 hash: the state starts at the offset basis; every byte multiplies the state by
  the FNV prime (modulo \<open>2^64\<close>) and then xors the byte in. The conversion to
  \<^verbatim>\<open>int64\<close> keeps the 64 bits, so an identifier is a 64-bit word.
\<close>

type_synonym id = "64 word"

definition offset64 :: "64 word" where
  "offset64 = 14695981039346656037"

definition prime64 :: "64 word" where
  "prime64 = 1099511628211"

fun fnv_write :: "64 word \<Rightarrow> string \<Rightarrow> 64 word" where
  "fnv_write h [] = h"
| "fnv_write h (c # cs) = fnv_write ((h * prime64) XOR of_char c) cs"

definition ID :: "string \<Rightarrow> id" where
  "ID self = fnv_write offset64 self"

section \<open>Weights, errors, outcomes\<close>

text \<open>
  An edge weight is a \<^verbatim>\<open>float64\<close>. Every finite \<^verbatim>\<open>float64\<close> is a rational number, and
  the JSON decoder of the request layer produces finite values only, so a weight is given
  by its value, a rational.
\<close>

type_synonym weight = rat

text \<open>
  The sum of two \<^verbatim>\<open>float64\<close> is the exact sum rounded to the nearest \<^verbatim>\<open>float64\<close>, a tie
  going to the even mantissa. \<open>round64\<close> is that rounding: the result is a mantissa of at
  most 53 bits times a power of two whose exponent is at least \<open>-1074\<close> (below the normal
  range the spacing stays \<open>2^-1074\<close>) and at most \<open>971\<close>; a value that would need a larger
  exponent overflows to an infinity, which is \<open>None\<close> here.
\<close>

definition pow2 :: "int \<Rightarrow> rat" where
  "pow2 e = (if 0 \<le> e then 2 ^ nat e else 1 / 2 ^ nat (- e))"

text \<open>For \<open>a > 0\<close>, the exponent \<open>k\<close> with \<open>2^k \<le> a < 2^(k+1)\<close>.\<close>

definition log2_floor :: "rat \<Rightarrow> int" where
  "log2_floor a =
     (case quotient_of a of
        (p, q) \<Rightarrow> (let d = bitlen p - bitlen q in if pow2 d \<le> a then d else d - 1))"

text \<open>The nearest integer, a tie going to the even one.\<close>

definition round_even :: "rat \<Rightarrow> int" where
  "round_even x =
     (let n = \<lfloor>x\<rfloor>; f = x - of_int n in
      if f < 1 / 2 then n else if 1 / 2 < f then n + 1 else if even n then n else n + 1)"

definition round64 :: "rat \<Rightarrow> rat option" where
  "round64 r =
     (if r = 0 then Some 0
      else
        (let e = max (log2_floor \<bar>r\<bar> - 52) (- 1074);
             m = round_even (\<bar>r\<bar> / pow2 e)
         in if 971 < e \<or> (e = 971 \<and> 2 ^ 53 \<le> m) then None
            else Some (sgn r * (of_int m * pow2 e))))"

text \<open>The rationals that are the value of a \<^verbatim>\<open>float64\<close>: rounding leaves them as they are.\<close>

definition is_float64 :: "rat \<Rightarrow> bool" where
  "is_float64 r \<longleftrightarrow> round64 r = Some r"

datatype error =
    AlreadyExists string    \<comment> \<open>\<^verbatim>\<open>"%s already exists"\<close>\<close>
  | DoesNotExist string     \<comment> \<open>\<^verbatim>\<open>"%s does not exist"\<close>\<close>
  | ConnError               \<comment> \<open>the connection failed during a command\<close>
  | WrongType               \<comment> \<open>the server's WRONGTYPE reply\<close>
  | UnexpectedType          \<comment> \<open>a reply helper applied to a reply of another shape\<close>
  | SyntaxError string      \<comment> \<open>\<^verbatim>\<open>strconv.ParseFloat\<close> rejected the text\<close>

text \<open>A call either returns a value or panics (with a message or an error value).\<close>

datatype panic = PanicMsg string | PanicErr error

datatype 'a outcome = Return 'a | Panic panic

section \<open>The graph library: \<^verbatim>\<open>simple.WeightedDirectedGraph\<close>\<close>

text \<open>
  The graph of package \<^verbatim>\<open>gonum.org/v1/gonum/graph/simple\<close> keeps a map from node
  identifier to node and, per ordered pair of identifiers, at most one weighted edge.
  The maps are association lists here; the order of a list stands for the (unspecified)
  iteration order of the map. The only nodes this program stores are Locations, so a
  node is its name; of an edge only the weight is ever read back.
\<close>

record WeightedDirectedGraph =
  nodes :: "(id \<times> string) list"
  edges :: "((id \<times> id) \<times> weight) list"

definition NewWeightedDirectedGraph :: WeightedDirectedGraph where
  "NewWeightedDirectedGraph = \<lparr>nodes = [], edges = []\<rparr>"

text \<open>\<^verbatim>\<open>g.Node(id)\<close>: the node with that identifier, or nil.\<close>

definition Node :: "WeightedDirectedGraph \<Rightarrow> id \<Rightarrow> string option" where
  "Node g i = map_of (nodes g) i"

text \<open>\<^verbatim>\<open>g.AddNode(n)\<close> panics when the identifier is already in use.\<close>

definition AddNode :: "WeightedDirectedGraph \<Rightarrow> string \<Rightarrow> WeightedDirectedGraph outcome" where
  "AddNode g n =
     (if Node g (ID n) \<noteq> None then Panic (PanicMsg ''simple: node ID collision'')
      else Return (g\<lparr>nodes := AList.update (ID n) n (nodes g)\<rparr>))"

text \<open>
  \<^verbatim>\<open>g.SetWeightedEdge(g.NewWeightedEdge(from, to, weight))\<close> panics when both ends
  have the same identifier; otherwise it stores both end nodes under their identifiers
  (adding a missing node, replacing a present one) and sets the edge.
\<close>

definition SetWeightedEdge ::
  "WeightedDirectedGraph \<Rightarrow> string \<Rightarrow> string \<Rightarrow> weight \<Rightarrow> WeightedDirectedGraph outcome" where
  "SetWeightedEdge g frm to w =
     (if ID frm = ID to then Panic (PanicMsg ''simple: adding self edge'')
      else Return
        \<lparr>nodes = AList.update (ID to) to (AList.update (ID frm) frm (nodes g)),
         edges = AList.update (ID frm, ID to) w (edges g)\<rparr>)"

text \<open>\<^verbatim>\<open>g.RemoveEdge(fid, tid)\<close>: nothing happens unless both nodes exist.\<close>

definition RemoveEdge :: "WeightedDirectedGraph \<Rightarrow> id \<Rightarrow> id \<Rightarrow> WeightedDirectedGraph" where
  "RemoveEdge g fid tid =
     (if Node g fid = None \<or> Node g tid = None then g
      else g\<lparr>edges := AList.delete (fid, tid) (edges g)\<rparr>)"

text \<open>\<^verbatim>\<open>g.RemoveNode(id)\<close>: removes the node and every edge from or to it.\<close>

definition RemoveNode :: "WeightedDirectedGraph \<Rightarrow> id \<Rightarrow> WeightedDirectedGraph" where
  "RemoveNode g i =
     (if Node g i = None then g
      else \<lparr>nodes = AList.delete i (nodes g),
            edges = filter (\<lambda>((f, t), w). f \<noteq> i \<and> t \<noteq> i) (edges g)\<rparr>)"

text \<open>\<^verbatim>\<open>g.Nodes()\<close> and \<^verbatim>\<open>g.From(id)\<close>, as the lists their iterators yield.\<close>

definition Nodes :: "WeightedDirectedGraph \<Rightarrow> string list" where
  "Nodes g = map snd (nodes g)"

definition succs :: "WeightedDirectedGraph \<Rightarrow> id \<Rightarrow> (id \<times> weight) list" where
  "succs g i = map (\<lambda>((f, t), w). (t, w)) (filter (\<lambda>((f, t), w). f = i) (edges g))"

definition From :: "WeightedDirectedGraph \<Rightarrow> id \<Rightarrow> string list" where
  "From g i = List.map_filter (\<lambda>(t, w). Node g t) (succs g i)"

section \<open>The backend: a connection to a key-value server\<close>

text \<open>
  One keyspace; a key holds a set of strings or a hash of field/value strings, and a
  command on a key of the other kind is answered with an error. An emptied set or hash
  leaves no key behind. A connection can also fail: \<open>faults\<close> scripts the coming
  commands (\<open>True\<close>: this command fails and changes nothing); past the end of the script
  every command goes through.
\<close>

datatype rvalue = RSet "string list" | RHash "(string \<times> string) list"

record conn =
  keys :: "string \<rightharpoonup> rvalue"
  faults :: "bool list"

datatype command =
    SADD string string
  | SREM string string
  | SMEMBERS string
  | HSET string string string
  | HDEL string string
  | HGETALL string

datatype reply = Integer int | Bulks "string list" | Fields "(string \<times> string) list"

fun exec :: "command \<Rightarrow> (string \<rightharpoonup> rvalue) \<Rightarrow> (error + reply) \<times> (string \<rightharpoonup> rvalue)" where
  "exec (SADD k m) ks =
     (case ks k of
        None \<Rightarrow> (Inr (Integer 1), ks(k \<mapsto> RSet [m]))
      | Some (RSet ms) \<Rightarrow>
          (if m \<in> set ms then (Inr (Integer 0), ks) else (Inr (Integer 1), ks(k \<mapsto> RSet (ms @ [m]))))
      | Some (RHash h) \<Rightarrow> (Inl WrongType, ks))"
| "exec (SREM k m) ks =
     (case ks k of
        None \<Rightarrow> (Inr (Integer 0), ks)
      | Some (RSet ms) \<Rightarrow>
          (if m \<in> set ms
           then (Inr (Integer 1),
                 if removeAll m ms = [] then ks(k := None) else ks(k \<mapsto> RSet (removeAll m ms)))
           else (Inr (Integer 0), ks))
      | Some (RHash h) \<Rightarrow> (Inl WrongType, ks))"
| "exec (SMEMBERS k) ks =
     (case ks k of
        None \<Rightarrow> (Inr (Bulks []), ks)
      | Some (RSet ms) \<Rightarrow> (Inr (Bulks ms), ks)
      | Some (RHash h) \<Rightarrow> (Inl WrongType, ks))"
| "exec (HSET k f v) ks =
     (case ks k of
        None \<Rightarrow> (Inr (Integer 1), ks(k \<mapsto> RHash [(f, v)]))
      | Some (RHash h) \<Rightarrow>
          (Inr (Integer (if f \<in> fst ` set h then 0 else 1)), ks(k \<mapsto> RHash (AList.update f v h)))
      | Some (RSet ms) \<Rightarrow> (Inl WrongType, ks))"
| "exec (HDEL k f) ks =
     (case ks k of
        None \<Rightarrow> (Inr (Integer 0), ks)
      | Some (RHash h) \<Rightarrow>
          (Inr (Integer (if f \<in> fst ` set h then 1 else 0)),
           if AList.delete f h = [] then ks(k := None) else ks(k \<mapsto> RHash (AList.delete f h)))
      | Some (RSet ms) \<Rightarrow> (Inl WrongType, ks))"
| "exec (HGETALL k) ks =
     (case ks k of
        None \<Rightarrow> (Inr (Fields []), ks)
      | Some (RHash h) \<Rightarrow> (Inr (Fields h), ks)
      | Some (RSet ms) \<Rightarrow> (Inl WrongType, ks))"

text \<open>\<^verbatim>\<open>conn.Do(cmd, args...)\<close>: the reply or an error, and the connection afterwards.\<close>

definition Do :: "conn \<Rightarrow> command \<Rightarrow> (error + reply) \<times> conn" where
  "Do c cmd =
     (case faults c of
        True # fs \<Rightarrow> (Inl ConnError, c\<lparr>faults := fs\<rparr>)
      | False # fs \<Rightarrow> (fst (exec cmd (keys c)), c\<lparr>keys := snd (exec cmd (keys c)), faults := fs\<rparr>)
      | [] \<Rightarrow> (fst (exec cmd (keys c)), c\<lparr>keys := snd (exec cmd (keys c))\<rparr>))"

text \<open>The reply helpers \<^verbatim>\<open>redis.Strings\<close> and \<^verbatim>\<open>redis.StringMap\<close>.\<close>

fun Strings :: "error + reply \<Rightarrow> error + string list" where
  "Strings (Inl err) = Inl err"
| "Strings (Inr (Bulks xs)) = Inr xs"
| "Strings (Inr r) = Inl UnexpectedType"

fun StringMap :: "error + reply \<Rightarrow> error + (string \<times> string) list" where
  "StringMap (Inl err) = Inl err"
| "StringMap (Inr (Fields h)) = Inr h"
| "StringMap (Inr r) = Inl UnexpectedType"

text \<open>
  The text of a weight. The client library writes a \<^verbatim>\<open>float64\<close> argument with
  \<^verbatim>\<open>strconv\<close> and \<open>getEdges\<close> reads it back with \<^verbatim>\<open>strconv.ParseFloat\<close>; both are
  taken as parameters.
\<close>

record strconv =
  FormatFloat :: "weight \<Rightarrow> string"
  ParseFloat :: "string \<Rightarrow> weight option"

section \<open>The route store\<close>

definition locations_set :: string where
  "locations_set = ''rest_project:locations''"

text \<open>
  \<^verbatim>\<open>RouteStore\<close> embeds a \<^verbatim>\<open>sync.Mutex\<close>, which is not reentrant: \<^verbatim>\<open>Lock\<close> on a held
  mutex waits until somebody unlocks it. Every method of the store locks first and
  unlocks when it leaves, so a \<^verbatim>\<open>Lock\<close> issued while the caller itself holds the mutex
  never returns; a call that never returns has the value \<open>None\<close>.
\<close>

record RouteStore =
  locked :: bool
  graph :: WeightedDirectedGraph
  redis :: conn

definition New :: "conn \<Rightarrow> RouteStore" where
  "New c = \<lparr>locked = False, graph = NewWeightedDirectedGraph, redis = c\<rparr>"

definition Lock :: "RouteStore \<Rightarrow> RouteStore option" where
  "Lock rs = (if locked rs then None else Some (rs\<lparr>locked := True\<rparr>))"

definition Unlock :: "RouteStore \<Rightarrow> RouteStore" where
  "Unlock rs = rs\<lparr>locked := False\<rparr>"

text \<open>\<^verbatim>\<open>rs.Lock(); defer rs.Unlock()\<close> around a method body.\<close>

definition locking ::
  "(RouteStore \<Rightarrow> ('a outcome \<times> RouteStore) option) \<Rightarrow> RouteStore \<Rightarrow> ('a outcome \<times> RouteStore) option" where
  "locking body rs =
     (case Lock rs of
        None \<Rightarrow> None
      | Some rs1 \<Rightarrow>
          (case body rs1 of
             None \<Rightarrow> None
           | Some (r, rs2) \<Rightarrow> Some (r, Unlock rs2)))"

text \<open>
  The loop \<^verbatim>\<open>for to, weight := range routes\<close>, which \<open>AddLocation\<close> and \<open>AddRoutes\<close>
  both end with (the same text in both).
\<close>

fun setRoutes ::
  "strconv \<Rightarrow> string \<Rightarrow> (string \<times> weight) list \<Rightarrow> RouteStore \<Rightarrow> error option outcome \<times> RouteStore" where
  "setRoutes sc name [] rs = (Return None, rs)"
| "setRoutes sc name ((to, w) # routes) rs =
     (if name \<noteq> to then
        (case SetWeightedEdge (graph rs) name to w of
           Panic msg \<Rightarrow> (Panic msg, rs)
         | Return g \<Rightarrow>
             (case Do (redis rs) (HSET name to (FormatFloat sc w)) of
                (Inl err, c) \<Rightarrow> (Return (Some err), rs\<lparr>graph := g, redis := c\<rparr>)
              | (Inr r, c) \<Rightarrow> setRoutes sc name routes (rs\<lparr>graph := g, redis := c\<rparr>)))
      else setRoutes sc name routes rs)"

definition AddLocation ::
  "strconv \<Rightarrow> RouteStore \<Rightarrow> string \<Rightarrow> (string \<times> weight) list \<Rightarrow> (error option outcome \<times> RouteStore) option" where
  "AddLocation sc rs0 name routes = locking (\<lambda>rs.
     if Node (graph rs) (ID name) \<noteq> None then Some (Return (Some (AlreadyExists name)), rs)
     else
       (case AddNode (graph rs) name of
          Panic msg \<Rightarrow> Some (Panic msg, rs)
        | Return g \<Rightarrow>
            (case Do (redis rs) (SADD locations_set name) of
               (Inl err, c) \<Rightarrow> Some (Return (Some err), rs\<lparr>graph := g, redis := c\<rparr>)
             | (Inr r, c) \<Rightarrow> Some (setRoutes sc name routes (rs\<lparr>graph := g, redis := c\<rparr>))))) rs0"

definition GetLocations :: "RouteStore \<Rightarrow> (string list outcome \<times> RouteStore) option" where
  "GetLocations rs0 = locking (\<lambda>rs. Some (Return (Nodes (graph rs)), rs)) rs0"

definition RoutesFrom :: "RouteStore \<Rightarrow> string \<Rightarrow> ((string list \<times> error option) outcome \<times> RouteStore) option" where
  "RoutesFrom rs0 name = locking (\<lambda>rs.
     if Node (graph rs) (ID name) = None then Some (Return ([], Some (DoesNotExist name)), rs)
     else Some (Return (From (graph rs) (ID name), None), rs)) rs0"

definition AddRoutes ::
  "strconv \<Rightarrow> RouteStore \<Rightarrow> string \<Rightarrow> (string \<times> weight) list \<Rightarrow> (error option outcome \<times> RouteStore) option" where
  "AddRoutes sc rs0 name routes = locking (\<lambda>rs.
     if Node (graph rs) (ID name) = None then Some (Return (Some (DoesNotExist name)), rs)
     else Some (setRoutes sc name routes rs)) rs0"

text \<open>The loop of \<open>RemoveRoutes\<close>.\<close>

fun unsetRoutes :: "string \<Rightarrow> string list \<Rightarrow> RouteStore \<Rightarrow> error option outcome \<times> RouteStore" where
  "unsetRoutes name [] rs = (Return None, rs)"
| "unsetRoutes name (to # routes) rs =
     (if name \<noteq> to then
        (case Do (redis rs) (HDEL name to) of
           (Inl err, c) \<Rightarrow> (Return (Some err), rs\<lparr>redis := c\<rparr>)
         | (Inr r, c) \<Rightarrow>
             unsetRoutes name routes
               (rs\<lparr>graph := RemoveEdge (graph rs) (ID name) (ID to), redis := c\<rparr>))
      else unsetRoutes name routes rs)"

definition RemoveRoutes ::
  "RouteStore \<Rightarrow> string \<Rightarrow> string list \<Rightarrow> (error option outcome \<times> RouteStore) option" where
  "RemoveRoutes rs0 name routes = locking (\<lambda>rs.
     if Node (graph rs) (ID name) = None then Some (Return (Some (DoesNotExist name)), rs)
     else Some (unsetRoutes name routes rs)) rs0"

text \<open>The loop of \<open>DeleteLocation\<close> over the names \<open>GetLocations\<close> returned.\<close>

fun hdelAll :: "string \<Rightarrow> string list \<Rightarrow> RouteStore \<Rightarrow> error option \<times> RouteStore" where
  "hdelAll name [] rs = (None, rs)"
| "hdelAll name (loc # locs) rs =
     (case Do (redis rs) (HDEL loc name) of
        (Inl err, c) \<Rightarrow> (Some err, rs\<lparr>redis := c\<rparr>)
      | (Inr r, c) \<Rightarrow> hdelAll name locs (rs\<lparr>redis := c\<rparr>))"

text \<open>
  \<open>DeleteLocation\<close> calls \<^verbatim>\<open>rs.GetLocations()\<close> between its own \<^verbatim>\<open>Lock\<close> and
  \<^verbatim>\<open>Unlock\<close>.
\<close>

definition DeleteLocation :: "RouteStore \<Rightarrow> string \<Rightarrow> (error option outcome \<times> RouteStore) option" where
  "DeleteLocation rs0 name = locking (\<lambda>rs.
     if Node (graph rs) (ID name) = None then Some (Return (Some (DoesNotExist name)), rs)
     else
       (case Do (redis rs) (SREM locations_set name) of
          (Inl err, c) \<Rightarrow> Some (Return (Some err), rs\<lparr>redis := c\<rparr>)
        | (Inr r, c) \<Rightarrow>
            (case GetLocations (rs\<lparr>redis := c\<rparr>) of
               None \<Rightarrow> None
             | Some (Panic msg, rs1) \<Rightarrow> Some (Panic msg, rs1)
             | Some (Return locs, rs1) \<Rightarrow>
                 (case hdelAll name locs rs1 of
                    (Some err, rs2) \<Rightarrow> Some (Return (Some err), rs2)
                  | (None, rs2) \<Rightarrow>
                      Some (Return None, rs2\<lparr>graph := RemoveNode (graph rs2) (ID name)\<rparr>))))) rs0"

section \<open>Restoring the store from the backend\<close>

text \<open>The loop of \<open>getEdges\<close> over the fields of the hash.\<close>

fun parseEdges ::
  "strconv \<Rightarrow> (string \<times> string) list \<Rightarrow> (string \<times> weight) list \<Rightarrow> error + (string \<times> weight) list" where
  "parseEdges sc [] ret = Inr ret"
| "parseEdges sc ((k, v) # stringMap) ret =
     (case ParseFloat sc v of
        None \<Rightarrow> Inl (SyntaxError v)
      | Some w \<Rightarrow> parseEdges sc stringMap (AList.update k w ret))"

definition getEdges :: "strconv \<Rightarrow> conn \<Rightarrow> string \<Rightarrow> (error + (string \<times> weight) list) \<times> conn" where
  "getEdges sc c loc =
     (case Do c (HGETALL loc) of
        (r, c1) \<Rightarrow>
          (case StringMap r of
             Inl err \<Rightarrow> (Inl err, c1)
           | Inr stringMap \<Rightarrow> (parseEdges sc stringMap [], c1)))"

text \<open>
  The first loop of \<open>Restore\<close>: the result of \<open>AddLocation\<close> is dropped; an error
  of \<open>getEdges\<close> ends \<open>Restore\<close> with \<^verbatim>\<open>return nil, err\<close>. The connection is the one
  the store holds.
\<close>

fun restoreLocations ::
  "strconv \<Rightarrow> string list \<Rightarrow> (string \<times> (string \<times> weight) list) list \<Rightarrow> RouteStore \<Rightarrow>
     ((error + (string \<times> (string \<times> weight) list) list) outcome \<times> RouteStore) option" where
  "restoreLocations sc [] routes ret = Some (Return (Inr routes), ret)"
| "restoreLocations sc (loc # locations) routes ret =
     (case AddLocation sc ret loc [] of
        None \<Rightarrow> None
      | Some (Panic p, ret1) \<Rightarrow> Some (Panic p, ret1)
      | Some (Return r, ret1) \<Rightarrow>
          (case getEdges sc (redis ret1) loc of
             (Inl err, c) \<Rightarrow> Some (Return (Inl err), ret1\<lparr>redis := c\<rparr>)
           | (Inr linked, c) \<Rightarrow>
               restoreLocations sc locations (AList.update loc linked routes) (ret1\<lparr>redis := c\<rparr>)))"

text \<open>
  The second loop of \<open>Restore\<close>. When \<open>AddRoutes\<close> reports an error the loop returns
  \<^verbatim>\<open>nil, err\<close>, where \<open>err\<close> is the variable the first loop assigned last.
\<close>

fun restoreRoutes ::
  "strconv \<Rightarrow> (string \<times> (string \<times> weight) list) list \<Rightarrow> error option \<Rightarrow> RouteStore \<Rightarrow>
     (RouteStore option \<times> error option) outcome option" where
  "restoreRoutes sc [] err ret = Some (Return (Some ret, None))"
| "restoreRoutes sc ((frm, linked) # routes) err ret =
     (case AddRoutes sc ret frm linked of
        None \<Rightarrow> None
      | Some (Panic p, ret1) \<Rightarrow> Some (Panic p)
      | Some (Return (Some e), ret1) \<Rightarrow> Some (Return (None, err))
      | Some (Return None, ret1) \<Rightarrow> restoreRoutes sc routes err ret1)"

definition Restore :: "strconv \<Rightarrow> conn \<Rightarrow> (RouteStore option \<times> error option) outcome option" where
  "Restore sc c =
     (let ret = New c in
      case Do (redis ret) (SMEMBERS locations_set) of
        (r, c1) \<Rightarrow>
          (case Strings r of
             Inl err \<Rightarrow> Some (Return (Some (ret\<lparr>redis := c1\<rparr>), Some err))
           | Inr locations \<Rightarrow>
               (case restoreLocations sc locations [] (ret\<lparr>redis := c1\<rparr>) of
                  None \<Rightarrow> None
                | Some (Panic p, ret1) \<Rightarrow> Some (Panic p)
                | Some (Return (Inl err), ret1) \<Rightarrow> Some (Return (None, Some err))
                | Some (Return (Inr routes), ret1) \<Rightarrow> restoreRoutes sc routes None ret1)))"

text \<open>\<open>NewRouteServer\<close> of package main: startup panics when \<open>Restore\<close> reports an error.\<close>

definition NewRouteServer :: "strconv \<Rightarrow> conn \<Rightarrow> RouteStore option outcome option" where
  "NewRouteServer sc c =
     (case Restore sc c of
        None \<Rightarrow> None
      | Some (Panic p) \<Rightarrow> Some (Panic p)
      | Some (Return (store, Some err)) \<Rightarrow> Some (Panic (PanicErr err))
      | Some (Return (store, None)) \<Rightarrow> Some (Return store))"

section \<open>Shortest routes: \<^verbatim>\<open>path.DijkstraAllFrom(from, g).AllTo(to)\<close>\<close>

text \<open>
  Package \<^verbatim>\<open>gonum.org/v1/gonum/graph/path\<close>. \<^verbatim>\<open>DijkstraAllFrom\<close> is Dijkstra's
  algorithm from one source; for every node it keeps the tentative distance (absent:
  \<open>+Inf\<close>) and the list of all predecessors through which that distance is reached. It
  panics on a negative edge weight met while a node is expanded. A tentative distance
  is a weight or \<open>+Inf\<close> (\<open>None\<close>).

  Expanding the node \<open>u\<close> (at distance \<open>du\<close>) looks at each edge \<open>u \<rightarrow> v\<close> of weight \<open>w\<close>
  and compares \<^verbatim>\<open>joint := dist[u] + w\<close>, a \<^verbatim>\<open>float64\<close> sum, with the distance of \<open>v\<close>: a
  strictly smaller \<open>joint\<close> replaces distance and predecessors of \<open>v\<close>, an equal one
  adds \<open>u\<close> to the predecessors (once). Distances are sums of weights that are not
  negative, so a sum that overflows is \<open>+Inf\<close>: it is never smaller than the distance of
  \<open>v\<close>, and equal to it when \<open>v\<close> has none yet.
\<close>

type_synonym shortest = "(id \<rightharpoonup> weight) \<times> (id \<Rightarrow> id list)"

fun relax :: "id \<Rightarrow> weight \<Rightarrow> (id \<times> weight) list \<Rightarrow> shortest \<Rightarrow> shortest outcome" where
  "relax u du [] p = Return p"
| "relax u du ((v, w) # es) (dst, nxt) =
     (if w < 0 then Panic (PanicMsg ''dijkstra: negative edge weight'')
      else
        (case round64 (du + w) of
           Some joint \<Rightarrow>
             (case dst v of
                None \<Rightarrow> relax u du es (dst(v \<mapsto> joint), nxt(v := [u]))
              | Some dv \<Rightarrow>
                  (if joint < dv then relax u du es (dst(v \<mapsto> joint), nxt(v := [u]))
                   else if joint = dv
                   then relax u du es (dst, nxt(v := (if u \<in> set (nxt v) then nxt v else nxt v @ [u])))
                   else relax u du es (dst, nxt)))
         | None \<Rightarrow>
             (case dst v of
                None \<Rightarrow> relax u du es (dst, nxt(v := (if u \<in> set (nxt v) then nxt v else nxt v @ [u])))
              | Some dv \<Rightarrow> relax u du es (dst, nxt))))"

text \<open>
  The library keeps the frontier in a heap ordered by distance and skips heap entries
  that are out of date; what is expanded next is a not yet expanded node of least finite
  tentative distance, each node once. \<open>pick_min\<close> finds such a node among the nodes not
  yet expanded.
\<close>

fun pick_min :: "(id \<rightharpoonup> weight) \<Rightarrow> id list \<Rightarrow> (id \<times> weight) option" where
  "pick_min dst [] = None"
| "pick_min dst (v # vs) =
     (case dst v of
        None \<Rightarrow> pick_min dst vs
      | Some dv \<Rightarrow>
          (case pick_min dst vs of
             None \<Rightarrow> Some (v, dv)
           | Some (u, du) \<Rightarrow> if du < dv then Some (u, du) else Some (v, dv)))"

lemma pick_min_mem: "pick_min dst vs = Some (u, du) \<Longrightarrow> u \<in> set vs"
  by (induction vs arbitrary: u du) (auto split: option.splits if_splits)

function dijkstra_loop :: "WeightedDirectedGraph \<Rightarrow> id list \<Rightarrow> shortest \<Rightarrow> shortest outcome" where
  "dijkstra_loop g unsettled (dst, nxt) =
     (case pick_min dst unsettled of
        None \<Rightarrow> Return (dst, nxt)
      | Some (u, du) \<Rightarrow>
          (case relax u du (succs g u) (dst, nxt) of
             Panic p \<Rightarrow> Panic p
           | Return p \<Rightarrow> dijkstra_loop g (removeAll u unsettled) p))"
  by pat_completeness auto
termination
proof (relation "measure (\<lambda>(g, unsettled, p). length unsettled)")
  show "wf (measure (\<lambda>(g, unsettled, p). length unsettled))"
    by simp
next
  fix g :: WeightedDirectedGraph and unsettled dst nxt x2 x y x2a
  assume "pick_min dst unsettled = Some x2" and "(x, y) = x2"
  then have "x \<in> set unsettled"
    using pick_min_mem [of dst unsettled x y] by simp
  then have "length (removeAll x unsettled) < length unsettled"
    by (simp add: length_removeAll_less)
  then show "((g, removeAll x unsettled, x2a), (g, unsettled, dst, nxt))
      \<in> measure (\<lambda>(g, unsettled, p). length unsettled)"
    by simp
qed

definition DijkstraAllFrom :: "WeightedDirectedGraph \<Rightarrow> string \<Rightarrow> shortest outcome" where
  "DijkstraAllFrom g u =
     (if Node g (ID u) = None then Return (Map.empty, \<lambda>v. [])
      else dijkstra_loop g (map fst (nodes g)) ([ID u \<mapsto> 0], \<lambda>v. []))"

text \<open>
  \<^verbatim>\<open>AllTo\<close> walks the predecessor lists back from the target, never entering a node
  that is already on the path it is building (so a path through a cycle of weight zero
  is not produced), and yields every path on which it reaches the source.
\<close>

function allTo :: "(id \<Rightarrow> id list) \<Rightarrow> id \<Rightarrow> id \<Rightarrow> id list \<Rightarrow> id list list" where
  "allTo nxt frm to path =
     (if frm = to then [path]
      else concat (map (\<lambda>k. if k \<in> set path then [] else allTo nxt frm k (k # path)) (nxt to)))"
  by pat_completeness auto
termination
proof (relation "measure (\<lambda>(nxt, frm, to, path). card (UNIV - set path))")
  show "wf (measure (\<lambda>(nxt, frm, to, path). card (UNIV - set path)))"
    by simp
next
  fix nxt :: "id \<Rightarrow> id list" and frm to :: id and path :: "id list" and x :: id
  assume "x \<notin> set path"
  then have "UNIV - set (x # path) \<subset> UNIV - set path"
    by auto
  then have "card (UNIV - set (x # path)) < card (UNIV - set path)"
    by (intro psubset_card_mono) simp_all
  then show "((nxt, frm, x, x # path), (nxt, frm, to, path))
      \<in> measure (\<lambda>(nxt, frm, to, path). card (UNIV - set path))"
    by simp
qed

definition AllTo :: "shortest \<Rightarrow> id \<Rightarrow> id \<Rightarrow> id list list \<times> weight option" where
  "AllTo p frm to =
     (if snd p to = [] then (if frm = to then ([[frm]], Some 0) else ([], None))
      else (allTo (snd p) frm to [to], fst p to))"

record Route =
  Route :: "string list"
  Weight :: "weight option"

definition RoutesBetween ::
  "RouteStore \<Rightarrow> string \<Rightarrow> string \<Rightarrow> ((Route list \<times> error option) outcome \<times> RouteStore) option" where
  "RoutesBetween rs0 fromStr toStr = locking (\<lambda>rs.
     if Node (graph rs) (ID fromStr) = None
     then Some (Return ([], Some (DoesNotExist fromStr)), rs)
     else if Node (graph rs) (ID toStr) = None
     then Some (Return ([], Some (DoesNotExist toStr)), rs)
     else
       (case DijkstraAllFrom (graph rs) fromStr of
          Panic p \<Rightarrow> Some (Panic p, rs)
        | Return p \<Rightarrow>
            (case AllTo p (ID fromStr) (ID toStr) of
               (paths, weight) \<Rightarrow>
                 Some (Return
                   (map (\<lambda>path. \<lparr>Route = List.map_filter (Node (graph rs)) path, Weight = weight\<rparr>) paths,
                    None), rs)))) rs0"

section \<open>Observations and example values\<close>

text \<open>What the backend holds: the members of the location set and the hash of a name.\<close>

definition location_names :: "conn \<Rightarrow> string list" where
  "location_names c = (case keys c locations_set of Some (RSet ms) \<Rightarrow> ms | _ \<Rightarrow> [])"

definition edge_hash :: "conn \<Rightarrow> string \<Rightarrow> (string \<times> string) list" where
  "edge_hash c name = (case keys c name of Some (RHash h) \<Rightarrow> h | _ \<Rightarrow> [])"

text \<open>
  A text form of weights for the examples: whole numbers in decimal notation. It stands
  in for \<^verbatim>\<open>strconv\<close> on the whole numbers the examples use.
\<close>

function show_nat :: "nat \<Rightarrow> string" where
  "show_nat n =
     (if n < 10 then [''0123456789'' ! n]
      else show_nat (n div 10) @ [''0123456789'' ! (n mod 10)])"
  by pat_completeness auto
termination
  by (relation "measure id") auto

fun read_nat :: "string \<Rightarrow> nat \<Rightarrow> nat option" where
  "read_nat [] acc = Some acc"
| "read_nat (c # cs) acc =
     (if c \<in> set ''0123456789'' then read_nat cs (10 * acc + (of_char c - 48)) else None)"

definition decimal :: strconv where
  "decimal =
     \<lparr>FormatFloat = (\<lambda>w. if w < 0 then CHR ''-'' # show_nat (nat \<lfloor>- w\<rfloor>) else show_nat (nat \<lfloor>w\<rfloor>)),
      ParseFloat = (\<lambda>s. case s of
          [] \<Rightarrow> None
        | c # cs \<Rightarrow>
            if c = CHR ''-'' then (if cs = [] then None else map_option (\<lambda>n. - of_nat n) (read_nat cs 0))
            else map_option of_nat (read_nat s 0))\<rparr>"

text \<open>An empty backend on a connection that never fails.\<close>

definition fresh :: conn where
  "fresh = \<lparr>keys = Map.empty, faults = []\<rparr>"

text \<open>The store after \<open>AddLocation "A" {}\<close> on the empty backend.\<close>

definition storeA :: RouteStore where
  "storeA =
     \<lparr>locked = False,
      graph = \<lparr>nodes = [(ID ''A'', ''A'')], edges = []\<rparr>,
      redis = \<lparr>keys = [locations_set \<mapsto> RSet [''A'']], faults = []\<rparr>\<rparr>"

text \<open>The store after \<open>AddLocation "A" {"B": 1}\<close> on the empty backend.\<close>

definition storeAB :: RouteStore where
  "storeAB =
     \<lparr>locked = False,
      graph = \<lparr>nodes = [(ID ''A'', ''A''), (ID ''B'', ''B'')], edges = [((ID ''A'', ID ''B''), 1)]\<rparr>,
      redis = \<lparr>keys = [locations_set \<mapsto> RSet [''A''], ''A'' \<mapsto> RHash [(''B'', ''1'')]], faults = []\<rparr>\<rparr>"

text \<open>
  A backend that holds the location \<open>A\<close> with one edge to \<open>B\<close>, on a connection whose
  fourth command fails.
\<close>

definition failing4 :: conn where
  "failing4 =
     \<lparr>keys = [locations_set \<mapsto> RSet [''A''], ''A'' \<mapsto> RHash [(''B'', ''1'')]],
      faults = [False, False, False, True]\<rparr>"

section \<open>Basic facts\<close>

lemma ID_A: "ID ''A'' = 12638153115695167390"
  by (simp add: ID_def offset64_def prime64_def)

lemma ID_B: "ID ''B'' = 12638153115695167389"
  by (simp add: ID_def offset64_def prime64_def)

lemma ID_C: "ID ''C'' = 12638153115695167388"
  by (simp add: ID_def offset64_def prime64_def)

lemmas store_defs =
  AddLocation_def AddRoutes_def RemoveRoutes_def DeleteLocation_def GetLocations_def
  RoutesFrom_def locking_def Lock_def Unlock_def New_def NewWeightedDirectedGraph_def
  Node_def AddNode_def SetWeightedEdge_def RemoveEdge_def RemoveNode_def Nodes_def From_def
  succs_def Do_def locations_set_def

lemma AddLocation_fresh_A: "AddLocation decimal (New fresh) ''A'' [] = Some (Return None, storeA)"
  by (simp add: store_defs storeA_def fresh_def)

lemma AddLocation_fresh_AB:
  "AddLocation decimal (New fresh) ''A'' [(''B'', 1)] = Some (Return None, storeAB)"
  by (simp add: store_defs storeAB_def fresh_def decimal_def ID_A ID_B fun_upd_twist)

text \<open>A method called on a store whose mutex is held never returns.\<close>

lemma locking_locked: "locked rs \<Longrightarrow> locking body rs = None"
  by (simp add: locking_def Lock_def)

text \<open>\<open>DeleteLocation\<close> never reports success.\<close>

lemma DeleteLocation_never_succeeds: "DeleteLocation rs name \<noteq> Some (Return None, rs1)"
proof (cases "locked rs")
  case True
  then show ?thesis
    by (simp add: DeleteLocation_def locking_locked)
next
  case False
  have "GetLocations (r\<lparr>locked := True, redis := c\<rparr>) = None" for r :: RouteStore and c
    by (simp add: GetLocations_def locking_locked)
  with False show ?thesis
    by (auto simp: DeleteLocation_def locking_def Lock_def split: prod.splits sum.splits)
qed

section \<open>The claims\<close>

text \<open>
  C8. When a location with the given name already exists (the test every method of the
  store uses: a node with the name's identifier), \<open>AddLocation\<close> on a store that is not
  in use returns the already-exists error and the store, graph and backend, is exactly
  what it was.
\<close>

theorem AddLocation_existing_unchanged:
  "\<not> locked rs \<Longrightarrow> Node (graph rs) (ID name) \<noteq> None \<Longrightarrow>
   AddLocation sc rs name routes = Some (Return (Some (AlreadyExists name)), rs)"
  by (simp add: AddLocation_def locking_def Lock_def Unlock_def)

theorem AddLocation_existing_unchanged_witness:
  "\<not> locked storeA \<and> Node (graph storeA) (ID ''A'') \<noteq> None \<and>
   AddLocation decimal storeA ''A'' [(''B'', 1)] = Some (Return (Some (AlreadyExists ''A'')), storeA)"
proof -
  have h1: "\<not> locked storeA"
    by (simp add: storeA_def)
  have h2: "Node (graph storeA) (ID ''A'') \<noteq> None"
    by (simp add: storeA_def Node_def)
  show ?thesis
    using h1 h2 AddLocation_existing_unchanged [OF h1 h2, of decimal "[(''B'', 1)]"] by simp
qed

text \<open>
  C3. \<open>DeleteLocation\<close> of a known location does not return: after the location
  \<open>A\<close> was added to an empty store, \<open>DeleteLocation "A"\<close> locks the mutex, removes the
  name from the backend's set and then calls \<open>GetLocations\<close>, which waits for the mutex
  its caller holds.
\<close>

theorem DeleteLocation_blocks:
  "AddLocation decimal (New fresh) ''A'' [] = Some (Return None, storeA) \<and>
   DeleteLocation storeA ''A'' = None"
  by (simp add: AddLocation_fresh_A) (simp add: store_defs storeA_def)

text \<open>
  C2. \<open>DeleteLocation\<close> of the known location \<open>B\<close>, the target of an edge from \<open>A\<close>,
  does not return, so it does not succeed and the node \<open>B\<close> and the edge to it stay in
  the graph.
\<close>

theorem DeleteLocation_edge_target_blocks:
  "Node (graph storeAB) (ID ''B'') = Some ''B'' \<and> DeleteLocation storeAB ''B'' = None"
  by (simp add: store_defs storeAB_def ID_A ID_B)

text \<open>
  C4. The backend holds the location \<open>A\<close> with an edge to \<open>B\<close>; the reads of
  \<open>Restore\<close> succeed and the write that \<open>AddRoutes\<close> issues while the edge is applied
  fails. \<open>Restore\<close> returns no store and no error, and \<open>NewRouteServer\<close> does not
  panic: it returns a server without a store.
\<close>

theorem Restore_failed_edge_no_error:
  "Restore decimal failing4 = Some (Return (None, None)) \<and>
   NewRouteServer decimal failing4 = Some (Return None)"
proof -
  have "Restore decimal failing4 = Some (Return (None, None))"
    by (simp add: Restore_def getEdges_def store_defs failing4_def decimal_def ID_A ID_B)
  then show ?thesis
    by (simp add: NewRouteServer_def)
qed

lemma update_mem: "(k, v) \<in> set (AList.update k v al)"
  by (induction al) auto

lemma set_map_filter: "set (List.map_filter f xs) = {y. \<exists>x \<in> set xs. f x = Some y}"
  by (induction xs) (auto simp: List.map_filter_simps split: option.splits)

lemma Node_SetWeightedEdge_to:
  "SetWeightedEdge g a b w = Return g' \<Longrightarrow> Node g' (ID b) = Some b"
  by (auto simp: SetWeightedEdge_def Node_def update_conv' split: if_splits)

lemma Nodes_SetWeightedEdge_to:
  "SetWeightedEdge g a b w = Return g' \<Longrightarrow> b \<in> set (Nodes g')"
  by (auto simp: SetWeightedEdge_def Nodes_def split: if_splits intro!: image_eqI [where x = "(ID b, b)"] update_mem)

lemma From_SetWeightedEdge_to:
  assumes "SetWeightedEdge g a b w = Return g'"
  shows "b \<in> set (From g' (ID a))"
proof -
  have "((ID a, ID b), w) \<in> set (edges g')"
    using assms by (auto simp: SetWeightedEdge_def update_mem split: if_splits)
  then have "(ID b, w) \<in> set (succs g' (ID a))"
    by (force simp: succs_def)
  moreover have "Node g' (ID b) = Some b"
    using assms by (rule Node_SetWeightedEdge_to)
  ultimately show ?thesis
    by (force simp: From_def set_map_filter)
qed

lemma exec_HSET_ok:
  "\<forall>ms. ks k \<noteq> Some (RSet ms) \<Longrightarrow> \<exists>n ks'. exec (HSET k f v) ks = (Inr (Integer n), ks') \<and> (\<forall>k'. k' \<noteq> k \<longrightarrow> ks' k' = ks k') \<and> (\<exists>h. ks' k = Some (RHash h))"
  by (cases "ks k") (auto split: rvalue.splits)

lemma exec_SADD_ok:
  assumes "\<forall>h. ks k \<noteq> Some (RHash h)"
  shows "\<exists>n ms. exec (SADD k m) ks = (Inr (Integer n), ks(k \<mapsto> RSet ms)) \<and>
     set ms = insert m (case ks k of Some (RSet ms0) \<Rightarrow> set ms0 | _ \<Rightarrow> {})"
proof (cases "ks k")
  case None
  then show ?thesis
    by (auto intro!: exI [where x = "[m]"])
next
  case (Some v)
  show ?thesis
  proof (cases v)
    case (RSet ms0)
    show ?thesis
    proof (cases "m \<in> set ms0")
      case True
      have "ks = ks(k \<mapsto> RSet ms0)"
        using Some RSet by (simp add: fun_upd_idem)
      with True Some RSet show ?thesis
        by (auto intro!: exI [where x = ms0])
    next
      case False
      with Some RSet show ?thesis
        by (auto intro!: exI [where x = "ms0 @ [m]"])
    qed
  next
    case (RHash h)
    with Some assms show ?thesis by simp
  qed
qed

lemma AddRoutes_creates_target:
  assumes "\<not> locked rs" and "Node (graph rs) (ID B) = None" and "faults (redis rs) = []"
    and A: "Node (graph rs) (ID A) \<noteq> None" and key: "\<forall>ms. keys (redis rs) A \<noteq> Some (RSet ms)"
  shows "\<exists>rs1. AddRoutes sc rs A [(B, w)] = Some (Return None, rs1) \<and>
         (\<exists>locs. GetLocations rs1 = Some (Return locs, rs1) \<and> B \<in> set locs) \<and>
         (\<exists>tos. RoutesFrom rs1 A = Some (Return (tos, None), rs1) \<and> B \<in> set tos) \<and>
         location_names (redis rs1) = location_names (redis rs)"
proof -
  from A assms(2) have ne: "ID A \<noteq> ID B" "A \<noteq> B"
    by auto
  obtain g where g: "SetWeightedEdge (graph rs) A B w = Return g"
    using ne by (simp add: SetWeightedEdge_def)
  obtain n ks where ks: "exec (HSET A B (FormatFloat sc w)) (keys (redis rs)) = (Inr (Integer n), ks)"
    and other: "\<forall>k'. k' \<noteq> A \<longrightarrow> ks k' = keys (redis rs) k'" and hash: "\<exists>h. ks A = Some (RHash h)"
    using exec_HSET_ok [of "keys (redis rs)" A B "FormatFloat sc w"] key by blast
  define rs1 where "rs1 = rs\<lparr>graph := g, redis := (redis rs)\<lparr>keys := ks\<rparr>\<rparr>"
  have run: "AddRoutes sc rs A [(B, w)] = Some (Return None, rs1)"
    using assms ne g ks by (simp add: AddRoutes_def locking_def Lock_def Unlock_def Do_def rs1_def)
  have unl: "\<not> locked rs1"
    using assms by (simp add: rs1_def)
  have Anode: "Node g (ID A) \<noteq> None"
    using g by (auto simp: SetWeightedEdge_def Node_def update_conv' split: if_splits)
  have "GetLocations rs1 = Some (Return (Nodes g), rs1)"
    using unl by (simp add: GetLocations_def locking_def Lock_def Unlock_def rs1_def)
  moreover have "B \<in> set (Nodes g)"
    using g by (rule Nodes_SetWeightedEdge_to)
  moreover have "RoutesFrom rs1 A = Some (Return (From g (ID A), None), rs1)"
    using unl Anode by (simp add: RoutesFrom_def locking_def Lock_def Unlock_def rs1_def)
  moreover have "B \<in> set (From g (ID A))"
    using g by (rule From_SetWeightedEdge_to)
  moreover have "location_names (redis rs1) = location_names (redis rs)"
  proof (cases "A = locations_set")
    case True
    with key hash show ?thesis
      by (cases "keys (redis rs) locations_set") (auto simp: location_names_def rs1_def split: rvalue.splits)
  next
    case False
    with other show ?thesis
      by (simp add: location_names_def rs1_def)
  qed
  ultimately show ?thesis
    using run by blast
qed

lemma AddLocation_creates_target:
  assumes "\<not> locked rs" and "Node (graph rs) (ID B) = None" and "faults (redis rs) = []"
    and A: "Node (graph rs) (ID A) = None" and ne: "ID A \<noteq> ID B"
    and setkey: "\<forall>h. keys (redis rs) locations_set \<noteq> Some (RHash h)"
    and key: "A \<noteq> locations_set" "\<forall>ms. keys (redis rs) A \<noteq> Some (RSet ms)"
  shows "\<exists>rs1. AddLocation sc rs A [(B, w)] = Some (Return None, rs1) \<and>
         (\<exists>locs. GetLocations rs1 = Some (Return locs, rs1) \<and> B \<in> set locs) \<and>
         (\<exists>tos. RoutesFrom rs1 A = Some (Return (tos, None), rs1) \<and> B \<in> set tos) \<and>
         set (location_names (redis rs1)) = insert A (set (location_names (redis rs)))"
proof -
  from ne have neq: "A \<noteq> B"
    by auto
  define g0 where "g0 = (graph rs)\<lparr>nodes := AList.update (ID A) A (nodes (graph rs))\<rparr>"
  have g0: "AddNode (graph rs) A = Return g0"
    using A by (simp add: AddNode_def g0_def)
  obtain n0 ms where ks0: "exec (SADD locations_set A) (keys (redis rs)) = (Inr (Integer n0), (keys (redis rs))(locations_set \<mapsto> RSet ms))"
    and ms: "set ms = insert A (case keys (redis rs) locations_set of Some (RSet ms0) \<Rightarrow> set ms0 | _ \<Rightarrow> {})"
    using exec_SADD_ok [of "keys (redis rs)" locations_set A] setkey by blast
  define ks0 where "ks0 = (keys (redis rs))(locations_set \<mapsto> RSet ms)"
  obtain g where g: "SetWeightedEdge g0 A B w = Return g"
    using ne by (simp add: SetWeightedEdge_def)
  have key0: "\<forall>ms. ks0 A \<noteq> Some (RSet ms)"
    using key by (simp add: ks0_def)
  obtain n ks where ks: "exec (HSET A B (FormatFloat sc w)) ks0 = (Inr (Integer n), ks)"
    and other: "\<forall>k'. k' \<noteq> A \<longrightarrow> ks k' = ks0 k'"
    using exec_HSET_ok [of ks0 A B "FormatFloat sc w"] key0 by blast
  define rs1 where "rs1 = rs\<lparr>graph := g, redis := (redis rs)\<lparr>keys := ks\<rparr>\<rparr>"
  have run: "AddLocation sc rs A [(B, w)] = Some (Return None, rs1)"
    using assms(1,3) A neq g0 g ks0 ks
    by (simp add: AddLocation_def locking_def Lock_def Unlock_def Do_def rs1_def ks0_def)
  have unl: "\<not> locked rs1"
    using assms by (simp add: rs1_def)
  have Anode: "Node g (ID A) \<noteq> None"
    using g by (auto simp: SetWeightedEdge_def Node_def update_conv' split: if_splits)
  have "GetLocations rs1 = Some (Return (Nodes g), rs1)"
    using unl by (simp add: GetLocations_def locking_def Lock_def Unlock_def rs1_def)
  moreover have "B \<in> set (Nodes g)"
    using g by (rule Nodes_SetWeightedEdge_to)
  moreover have "RoutesFrom rs1 A = Some (Return (From g (ID A), None), rs1)"
    using unl Anode by (simp add: RoutesFrom_def locking_def Lock_def Unlock_def rs1_def)
  moreover have "B \<in> set (From g (ID A))"
    using g by (rule From_SetWeightedEdge_to)
  moreover have "set (location_names (redis rs1)) = insert A (set (location_names (redis rs)))"
  proof -
    have "ks locations_set = Some (RSet ms)"
      using other key(1) by (simp add: ks0_def)
    then show ?thesis
      using ms by (auto simp: location_names_def rs1_def split: option.splits rvalue.splits)
  qed
  ultimately show ?thesis
    using run by blast
qed

text \<open>
  C10. On a store that is not in use and whose backend accepts the writes, let \<open>B\<close> be a
  name that is not a location (no node has its identifier). \<open>AddRoutes\<close> from an existing
  location \<open>A\<close>, and \<open>AddLocation\<close> of a new location \<open>A'\<close> (whose identifier is not that
  of \<open>B\<close>), with the single route to \<open>B\<close>, succeed; afterwards \<open>B\<close> is among
  \<open>GetLocations\<close> and among \<open>RoutesFrom\<close> of the source, and the backend's set of
  location names is what it was (with \<open>A'\<close> added in the second case): \<open>B\<close> is not
  added to it.
\<close>

theorem edge_target_becomes_node:
  assumes "\<not> locked rs" and "Node (graph rs) (ID B) = None" and "faults (redis rs) = []"
  shows "(Node (graph rs) (ID A) \<noteq> None \<and> (\<forall>ms. keys (redis rs) A \<noteq> Some (RSet ms)) \<longrightarrow>
      (\<exists>rs1. AddRoutes sc rs A [(B, w)] = Some (Return None, rs1) \<and>
         (\<exists>locs. GetLocations rs1 = Some (Return locs, rs1) \<and> B \<in> set locs) \<and>
         (\<exists>tos. RoutesFrom rs1 A = Some (Return (tos, None), rs1) \<and> B \<in> set tos) \<and>
         location_names (redis rs1) = location_names (redis rs))) \<and>
     (Node (graph rs) (ID A') = None \<and> ID A' \<noteq> ID B \<and>
      (\<forall>h. keys (redis rs) locations_set \<noteq> Some (RHash h)) \<and>
      A' \<noteq> locations_set \<and> (\<forall>ms. keys (redis rs) A' \<noteq> Some (RSet ms)) \<longrightarrow>
      (\<exists>rs1. AddLocation sc rs A' [(B, w)] = Some (Return None, rs1) \<and>
         (\<exists>locs. GetLocations rs1 = Some (Return locs, rs1) \<and> B \<in> set locs) \<and>
         (\<exists>tos. RoutesFrom rs1 A' = Some (Return (tos, None), rs1) \<and> B \<in> set tos) \<and>
         set (location_names (redis rs1)) = insert A' (set (location_names (redis rs)))))"
  using AddRoutes_creates_target [OF assms, of A sc w] AddLocation_creates_target [OF assms, of A' sc w]
  by blast

theorem edge_target_becomes_node_witness:
  "\<not> locked storeA \<and> Node (graph storeA) (ID ''B'') = None \<and> faults (redis storeA) = [] \<and>
   Node (graph storeA) (ID ''A'') \<noteq> None \<and> (\<forall>ms. keys (redis storeA) ''A'' \<noteq> Some (RSet ms)) \<and>
   (\<exists>rs1. AddRoutes decimal storeA ''A'' [(''B'', 1)] = Some (Return None, rs1) \<and>
         (\<exists>locs. GetLocations rs1 = Some (Return locs, rs1) \<and> ''B'' \<in> set locs) \<and>
         (\<exists>tos. RoutesFrom rs1 ''A'' = Some (Return (tos, None), rs1) \<and> ''B'' \<in> set tos) \<and>
         location_names (redis rs1) = location_names (redis storeA)) \<and>
   Node (graph storeA) (ID ''C'') = None \<and> ID ''C'' \<noteq> ID ''B'' \<and>
   (\<forall>h. keys (redis storeA) locations_set \<noteq> Some (RHash h)) \<and>
   ''C'' \<noteq> locations_set \<and> (\<forall>ms. keys (redis storeA) ''C'' \<noteq> Some (RSet ms)) \<and>
   (\<exists>rs1. AddLocation decimal storeA ''C'' [(''B'', 1)] = Some (Return None, rs1) \<and>
         (\<exists>locs. GetLocations rs1 = Some (Return locs, rs1) \<and> ''B'' \<in> set locs) \<and>
         (\<exists>tos. RoutesFrom rs1 ''C'' = Some (Return (tos, None), rs1) \<and> ''B'' \<in> set tos) \<and>
         set (location_names (redis rs1)) = insert ''C'' (set (location_names (redis storeA))))"
proof -
  have h1: "\<not> locked storeA" and h2: "Node (graph storeA) (ID ''B'') = None"
    and h3: "faults (redis storeA) = []"
    by (simp_all add: storeA_def Node_def ID_A ID_B)
  have h4: "Node (graph storeA) (ID ''A'') \<noteq> None \<and> (\<forall>ms. keys (redis storeA) ''A'' \<noteq> Some (RSet ms))"
    by (simp add: storeA_def Node_def locations_set_def)
  have h5: "Node (graph storeA) (ID ''C'') = None \<and> ID ''C'' \<noteq> ID ''B'' \<and>
      (\<forall>h. keys (redis storeA) locations_set \<noteq> Some (RHash h)) \<and>
      ''C'' \<noteq> locations_set \<and> (\<forall>ms. keys (redis storeA) ''C'' \<noteq> Some (RSet ms))"
    by (simp add: storeA_def Node_def locations_set_def ID_A ID_B ID_C)
  show ?thesis
    using h1 h2 h3 h4 h5 edge_target_becomes_node [OF h1 h2 h3, of "''A''" decimal 1 "''C''"]
    by blast
qed

lemma prime64_inverse: "prime64 * 14886173955864302971 = 1"
  by (simp add: prime64_def)

lemma mult_prime64_inj: "h * prime64 = h' * prime64 \<Longrightarrow> h = h'"
proof -
  assume "h * prime64 = h' * prime64"
  then have "h * prime64 * 14886173955864302971 = h' * prime64 * 14886173955864302971"
    by simp
  then show "h = h'"
    by (simp add: mult.assoc prime64_inverse)
qed

lemma of_char_word_inj: "(of_char c :: 64 word) = of_char c' \<Longrightarrow> c = c'"
proof -
  assume eq: "(of_char c :: 64 word) = of_char c'"
  have lt: "(of_char d :: nat) < 2 ^ 64" for d
  proof -
    have "(of_char d :: nat) mod 256 < 256"
      by (rule mod_less_divisor) simp
    then have "(of_char d :: nat) < 256"
      by (simp only: of_char_mod_256)
    also have "(256 :: nat) < 2 ^ 64"
      by simp
    finally show ?thesis .
  qed
  have un: "unat (of_char d :: 64 word) = of_char d" for d
  proof -
    have "unat (of_nat (of_char d :: nat) :: 64 word) = of_char d"
      using lt [of d] by (simp add: unat_of_nat take_bit_nat_eq_self)
    then show ?thesis
      by (simp add: of_nat_of_char)
  qed
  from eq have "unat (of_char c :: 64 word) = unat (of_char c' :: 64 word)"
    by simp
  then have "(of_char c :: nat) = of_char c'"
    by (simp only: un)
  then show "c = c'"
    by simp
qed

lemma xor_right_cancel: "(a :: 64 word) XOR c = b XOR c \<Longrightarrow> a = b"
  by (metis bit.xor_left_self word_bw_comms(3))

lemma xor_left_cancel: "(c :: 64 word) XOR a = c XOR b \<Longrightarrow> a = b"
  by (metis bit.xor_left_self)

lemma fnv_write_append: "fnv_write h (xs @ ys) = fnv_write (fnv_write h xs) ys"
  by (induction xs arbitrary: h) simp_all

lemma fnv_write_inj_state: "fnv_write h s = fnv_write h' s \<Longrightarrow> h = h'"
proof (induction s arbitrary: h h')
  case Nil
  then show ?case by simp
next
  case (Cons c s)
  from Cons.prems have "fnv_write ((h * prime64) XOR of_char c) s = fnv_write ((h' * prime64) XOR of_char c) s"
    by simp
  then have "(h * prime64) XOR of_char c = (h' * prime64) XOR of_char c"
    by (rule Cons.IH)
  then have "h * prime64 = h' * prime64"
    by (rule xor_right_cancel)
  then show ?case
    by (rule mult_prime64_inj)
qed

text \<open>
  C5, as stated, fails: the names \<open>0A103jg0\<close> and \<open>vKZxvYzJ\<close> are distinct and have the
  same identifier.
\<close>

theorem ID_collision:
  "''0A103jg0'' \<noteq> ''vKZxvYzJ'' \<and> ID ''0A103jg0'' = ID ''vKZxvYzJ''"
  by (simp add: ID_def offset64_def prime64_def)

text \<open>
  C5, amended: two names that differ in exactly one byte (same length, the other bytes
  equal) have distinct identifiers; over all names the identifier is not injective.
\<close>

theorem ID_one_byte:
  "(\<forall>xs ys c c'. c \<noteq> c' \<longrightarrow> ID (xs @ c # ys) \<noteq> ID (xs @ c' # ys)) \<and>
   (\<exists>a b. a \<noteq> b \<and> ID a = ID b)"
proof (intro conjI allI impI notI)
  fix xs ys c c'
  assume ne: "c \<noteq> c'" and eq: "ID (xs @ c # ys) = ID (xs @ c' # ys)"
  from eq have "fnv_write ((fnv_write offset64 xs * prime64) XOR of_char c) ys
      = fnv_write ((fnv_write offset64 xs * prime64) XOR of_char c') ys"
    by (simp add: ID_def fnv_write_append)
  then have "(fnv_write offset64 xs * prime64) XOR of_char c
      = (fnv_write offset64 xs * prime64) XOR of_char c'"
    by (rule fnv_write_inj_state)
  then have "(of_char c :: 64 word) = of_char c'"
    by (rule xor_left_cancel)
  then have "c = c'"
    by (rule of_char_word_inj)
  with ne show False
    by simp
next
  have "''0A103jg0'' \<noteq> ''vKZxvYzJ'' \<and> ID ''0A103jg0'' = ID ''vKZxvYzJ''"
    by (simp add: ID_def offset64_def prime64_def)
  then show "\<exists>a b. a \<noteq> b \<and> ID a = ID b"
    by (intro exI)
qed

theorem ID_one_byte_witness:
  "CHR ''B'' \<noteq> CHR ''C'' \<and> ID (''A'' @ CHR ''B'' # ''D'') \<noteq> ID (''A'' @ CHR ''C'' # ''D'') \<and>
   (\<exists>a b. a \<noteq> b \<and> ID a = ID b)"
proof -
  have h: "CHR ''B'' \<noteq> CHR ''C''"
    by simp
  have 1: "\<forall>xs ys c c'. c \<noteq> c' \<longrightarrow> ID (xs @ c # ys) \<noteq> ID (xs @ c' # ys)"
    and 2: "\<exists>a b. a \<noteq> b \<and> ID a = ID b"
    using ID_one_byte by (rule conjunct1, rule conjunct2)
  from 1 have "CHR ''B'' \<noteq> CHR ''C'' \<longrightarrow> ID (''A'' @ CHR ''B'' # ''D'') \<noteq> ID (''A'' @ CHR ''C'' # ''D'')"
    by (elim allE)
  with h have "ID (''A'' @ CHR ''B'' # ''D'') \<noteq> ID (''A'' @ CHR ''C'' # ''D'')"
    by (rule rev_mp)
  with h 2 show ?thesis
    by (intro conjI)
qed

text \<open>The nodes that a walk along edges reaches from \<open>s\<close>.\<close>

inductive reachable :: "WeightedDirectedGraph \<Rightarrow> id \<Rightarrow> id \<Rightarrow> bool" for g s where
  reach_refl: "reachable g s s"
| reach_step: "reachable g s u \<Longrightarrow> ((u, v), w) \<in> set (edges g) \<Longrightarrow> reachable g s v"

text \<open>No edge that leaves a node reachable from \<open>s\<close> has a negative weight.\<close>

definition nonneg_from :: "WeightedDirectedGraph \<Rightarrow> id \<Rightarrow> bool" where
  "nonneg_from g s = (\<forall>u v w. reachable g s u \<longrightarrow> ((u, v), w) \<in> set (edges g) \<longrightarrow> 0 \<le> w)"

text \<open>The store after \<open>AddLocation "A" {"B": -1}\<close> on the empty backend.\<close>

definition storeNeg :: RouteStore where
  "storeNeg =
     \<lparr>locked = False,
      graph = \<lparr>nodes = [(ID ''A'', ''A''), (ID ''B'', ''B'')], edges = [((ID ''A'', ID ''B''), - 1)]\<rparr>,
      redis = \<lparr>keys = [locations_set \<mapsto> RSet [''A''], ''A'' \<mapsto> RHash [(''B'', ''-1'')]], faults = []\<rparr>\<rparr>"

declare dijkstra_loop.simps [simp del]

declare allTo.simps [simp del]

lemma succs_iff: "(v, w) \<in> set (succs g u) \<longleftrightarrow> ((u, v), w) \<in> set (edges g)"
  by (force simp: succs_def)

text \<open>
  What the loop of \<open>DijkstraAllFrom\<close> keeps: the source has distance zero, and a node
  with a tentative distance is reachable and its distance is not negative.
\<close>

definition dist_ok :: "WeightedDirectedGraph \<Rightarrow> id \<Rightarrow> (id \<rightharpoonup> weight) \<Rightarrow> bool" where
  "dist_ok g s dst = (dst s = Some 0 \<and> (\<forall>v d. dst v = Some d \<longrightarrow> 0 \<le> d \<and> reachable g s v))"

lemma pow2_pos: "0 < pow2 e"
  by (simp add: pow2_def)

lemma round_even_nonneg: "0 \<le> x \<Longrightarrow> 0 \<le> round_even x"
  by (auto simp: round_even_def Let_def)

lemma round64_nonneg:
  assumes "0 \<le> r" and "round64 r = Some j"
  shows "0 \<le> j"
proof (cases "r = 0")
  case True
  with assms(2) show ?thesis
    by (simp add: round64_def)
next
  case False
  define e where "e = max (log2_floor \<bar>r\<bar> - 52) (- 1074)"
  define m where "m = round_even (\<bar>r\<bar> / pow2 e)"
  from assms(2) False have j: "j = sgn r * (of_int m * pow2 e)"
    by (auto simp: round64_def Let_def e_def m_def split: if_splits)
  have "0 \<le> \<bar>r\<bar> / pow2 e"
    using pow2_pos [of e] by simp
  then have "0 \<le> m"
    unfolding m_def by (rule round_even_nonneg)
  then have "0 \<le> (of_int m :: rat) * pow2 e"
    using pow2_pos [of e] by simp
  moreover have "0 \<le> sgn r"
    using assms(1) by (simp add: sgn_if)
  ultimately show ?thesis
    unfolding j by simp
qed

lemma relax_dist_ok:
  assumes "dist_ok g s dst" and "reachable g s u" and "0 \<le> du"
    and "\<forall>(v, w) \<in> set es. 0 \<le> w \<and> reachable g s v"
  shows "\<exists>dst' nxt'. relax u du es (dst, nxt) = Return (dst', nxt') \<and> dist_ok g s dst'"
  using assms
proof (induction es arbitrary: dst nxt)
  case Nil
  then show ?case by simp
next
  case (Cons e es)
  obtain v w where e: "e = (v, w)"
    by (cases e)
  from Cons.prems e have w: "0 \<le> w" and v: "reachable g s v"
    by auto
  have rest: "\<forall>(v, w) \<in> set es. 0 \<le> w \<and> reachable g s v"
    using Cons.prems by simp
  have upd: "dist_ok g s (dst(v \<mapsto> j))"
    if "0 \<le> j" and "dst v = None \<or> (\<exists>dv. dst v = Some dv \<and> j < dv)" for j
  proof -
    have "v \<noteq> s"
      using that Cons.prems(1) by (auto simp: dist_ok_def)
    then show ?thesis
      using Cons.prems(1) that(1) v by (auto simp: dist_ok_def)
  qed
  note keep = Cons.IH [OF Cons.prems(1,2,3) rest]
  let ?add = "nxt(v := (if u \<in> set (nxt v) then nxt v else nxt v @ [u]))"
  show ?case
  proof (cases "round64 (du + w)")
    case None
    have "relax u du (e # es) (dst, nxt) = relax u du es (dst, if dst v = None then ?add else nxt)"
      using None e w by (simp split: option.splits)
    with keep [of "if dst v = None then ?add else nxt"] show ?thesis
      by (simp only:)
  next
    case (Some j)
    have j: "0 \<le> j"
      using round64_nonneg [OF _ Some] Cons.prems(3) w by simp
    show ?thesis
    proof (cases "dst v")
      case None
      then have "dist_ok g s (dst(v \<mapsto> j))"
        using j by (simp add: upd)
      note Cons.IH [OF this Cons.prems(2,3) rest, of "nxt(v := [u])"]
      moreover have "relax u du (e # es) (dst, nxt) = relax u du es (dst(v \<mapsto> j), nxt(v := [u]))"
        using None Some e w by simp
      ultimately show ?thesis
        by (simp only:)
    next
      case dv: (Some dv)
      show ?thesis
      proof (cases "j < dv")
        case True
        with dv have "dist_ok g s (dst(v \<mapsto> j))"
          using j by (simp add: upd)
        note Cons.IH [OF this Cons.prems(2,3) rest, of "nxt(v := [u])"]
        moreover have "relax u du (e # es) (dst, nxt) = relax u du es (dst(v \<mapsto> j), nxt(v := [u]))"
          using dv Some True e w by simp
        ultimately show ?thesis
          by (simp only:)
      next
        case False
        have "relax u du (e # es) (dst, nxt) = relax u du es (dst, if j = dv then ?add else nxt)"
          using dv Some False e w by simp
        with keep [of "if j = dv then ?add else nxt"] show ?thesis
          by (simp only:)
      qed
    qed
  qed
qed

lemma pick_min_Some: "pick_min dst vs = Some (u, du) \<Longrightarrow> dst u = Some du"
  by (induction vs arbitrary: u du) (auto split: option.splits if_splits)

lemma dijkstra_loop_dist_ok:
  assumes "nonneg_from g s" and "dist_ok g s (fst p)"
  shows "\<exists>dst' nxt'. dijkstra_loop g unsettled p = Return (dst', nxt') \<and> dist_ok g s dst'"
  using assms
proof (induction g unsettled p rule: dijkstra_loop.induct)
  case (1 g unsettled dst nxt)
  show ?case
  proof (cases "pick_min dst unsettled")
    case None
    then show ?thesis
      using "1.prems" by (simp add: dijkstra_loop.simps)
  next
    case (Some a)
    obtain u du where a: "a = (u, du)"
      by (cases a)
    have du: "dst u = Some du"
      using Some a by (simp add: pick_min_Some)
    then have ru: "reachable g s u" and du0: "0 \<le> du"
      using "1.prems" by (auto simp: dist_ok_def)
    have es: "\<forall>(v, w) \<in> set (succs g u). 0 \<le> w \<and> reachable g s v"
    proof (intro ballI, clarify)
      fix v w
      assume "(v, w) \<in> set (succs g u)"
      then have edge: "((u, v), w) \<in> set (edges g)"
        by (simp add: succs_iff)
      have "0 \<le> w"
        using "1.prems"(1) [unfolded nonneg_from_def, rule_format, OF ru edge] .
      moreover from ru edge have "reachable g s v"
        by (rule reach_step)
      ultimately show "0 \<le> w \<and> reachable g s v"
        by simp
    qed
    obtain dst1 nxt1 where r: "relax u du (succs g u) (dst, nxt) = Return (dst1, nxt1)"
      and ok: "dist_ok g s dst1"
      using relax_dist_ok [of g s dst u du "succs g u" nxt] "1.prems" ru du0 es by auto
    show ?thesis
      using "1.IH" [OF Some a [symmetric] r "1.prems"(1)] ok Some a r
      by (simp add: dijkstra_loop.simps [of g unsettled])
  qed
qed


lemma allTo_self: "allTo nxt s s path = [path]"
  by (subst allTo.simps) simp

lemma AllTo_self: "fst p s = Some 0 \<Longrightarrow> AllTo p s s = ([[s]], Some 0)"
  by (simp add: AllTo_def allTo_self)

lemma DijkstraAllFrom_dist_ok:
  assumes "Node g (ID X) \<noteq> None" and "nonneg_from g (ID X)"
  shows "\<exists>dst nxt. DijkstraAllFrom g X = Return (dst, nxt) \<and> dist_ok g (ID X) dst"
proof -
  have "dist_ok g (ID X) (fst ([ID X \<mapsto> 0 :: weight], (\<lambda>v. []) :: id \<Rightarrow> id list))"
    by (auto simp: dist_ok_def intro: reach_refl split: if_splits)
  moreover have "DijkstraAllFrom g X = dijkstra_loop g (map fst (nodes g)) ([ID X \<mapsto> 0], \<lambda>v. [])"
    using assms(1) by (auto simp: DijkstraAllFrom_def)
  ultimately show ?thesis
    using dijkstra_loop_dist_ok [OF assms(2), of "([ID X \<mapsto> 0], \<lambda>v. [])" "map fst (nodes g)"]
    by simp
qed

text \<open>
  C7, amended: for a known location \<open>X\<close> of a store that is not in use, when no edge
  that can be reached from \<open>X\<close> has a negative weight, \<open>RoutesBetween X X\<close> returns
  exactly one route, the path \<open>[X]\<close> with weight zero, and leaves the store as it was.
\<close>

theorem RoutesBetween_self:
  assumes "\<not> locked rs" and "Node (graph rs) (ID X) = Some X" and "nonneg_from (graph rs) (ID X)"
  shows "RoutesBetween rs X X = Some (Return ([\<lparr>Route = [X], Weight = Some 0\<rparr>], None), rs)"
proof -
  obtain dst nxt where d: "DijkstraAllFrom (graph rs) X = Return (dst, nxt)"
    and ok: "dist_ok (graph rs) (ID X) dst"
    using DijkstraAllFrom_dist_ok [of "graph rs" X] assms(2,3) by auto
  have "AllTo (dst, nxt) (ID X) (ID X) = ([[ID X]], Some 0)"
    using ok by (simp add: AllTo_self dist_ok_def)
  then show ?thesis
    using assms(1,2) d
    by (simp add: RoutesBetween_def locking_def Lock_def Unlock_def List.map_filter_simps)
qed




lemma nonneg_fromI: "\<forall>(e, w) \<in> set (edges g). 0 \<le> w \<Longrightarrow> nonneg_from g s"
  by (auto simp: nonneg_from_def)

theorem RoutesBetween_self_witness:
  "\<not> locked storeAB \<and> Node (graph storeAB) (ID ''A'') = Some ''A'' \<and> nonneg_from (graph storeAB) (ID ''A'') \<and>
   RoutesBetween storeAB ''A'' ''A'' = Some (Return ([\<lparr>Route = [''A''], Weight = Some 0\<rparr>], None), storeAB)"
proof -
  have h1: "\<not> locked storeAB" and h2: "Node (graph storeAB) (ID ''A'') = Some ''A''"
    by (simp_all add: storeAB_def Node_def)
  have h3: "nonneg_from (graph storeAB) (ID ''A'')"
    by (rule nonneg_fromI) (simp add: storeAB_def)
  show ?thesis
    using h1 h2 h3 RoutesBetween_self [OF h1 h2 h3] by simp
qed

lemma AddLocation_fresh_neg:
  "AddLocation decimal (New fresh) ''A'' [(''B'', - 1)] = Some (Return None, storeNeg)"
  by (simp add: store_defs storeNeg_def fresh_def decimal_def ID_A ID_B fun_upd_twist)

text \<open>
  C7, as stated, fails: nothing rejects a negative weight, and with the edge from \<open>A\<close>
  to \<open>B\<close> of weight \<open>-1\<close> \<open>RoutesBetween A A\<close> panics inside \<open>DijkstraAllFrom\<close>.
\<close>

theorem RoutesBetween_self_negative_edge:
  "AddLocation decimal (New fresh) ''A'' [(''B'', - 1)] = Some (Return None, storeNeg) \<and>
   RoutesBetween storeNeg ''A'' ''A'' = Some (Panic (PanicMsg ''dijkstra: negative edge weight''), storeNeg)"
proof -
  have "DijkstraAllFrom (graph storeNeg) ''A'' = Panic (PanicMsg ''dijkstra: negative edge weight'')"
    by (simp add: DijkstraAllFrom_def Node_def storeNeg_def succs_def ID_A ID_B dijkstra_loop.simps)
  then have "RoutesBetween storeNeg ''A'' ''A'' = Some (Panic (PanicMsg ''dijkstra: negative edge weight''), storeNeg)"
    by (simp add: RoutesBetween_def locking_def Lock_def Unlock_def Node_def storeNeg_def ID_A ID_B)
  then show ?thesis
    by (simp add: AddLocation_fresh_neg)
qed

text \<open>
  The stores of the scenario: after \<open>AddLocation "A" {"B": 1, "C": 4}\<close> on the empty
  backend; and after \<open>AddLocation "C" {}\<close>, then \<open>AddLocation "B" {"C": 1}\<close>, then
  \<open>AddLocation "A" {"B": 1, "C": 4}\<close>.
\<close>

definition storeABC :: RouteStore where
  "storeABC =
     \<lparr>locked = False,
      graph = \<lparr>nodes = [(ID ''A'', ''A''), (ID ''B'', ''B''), (ID ''C'', ''C'')],
               edges = [((ID ''A'', ID ''B''), 1), ((ID ''A'', ID ''C''), 4)]\<rparr>,
      redis = \<lparr>keys = [locations_set \<mapsto> RSet [''A''], ''A'' \<mapsto> RHash [(''B'', ''1''), (''C'', ''4'')]],
               faults = []\<rparr>\<rparr>"




lemma scenario_A: "AddLocation decimal (New fresh) ''A'' [(''B'', 1), (''C'', 4)] = Some (Return None, storeABC)"
  by (simp add: store_defs storeABC_def fresh_def decimal_def ID_A ID_B ID_C fun_upd_twist)












section \<open>The mirror of the graph in the backend\<close>

text \<open>
  A graph as the operations of the store build it: no identifier is the key of two nodes,
  every node is stored under the identifier of its name, no pair of identifiers is the
  key of two edges, and every edge joins two different nodes of the graph.
\<close>

definition wf_graph :: "WeightedDirectedGraph \<Rightarrow> bool" where
  "wf_graph g \<longleftrightarrow>
     distinct (map fst (nodes g)) \<and>
     (\<forall>i n. (i, n) \<in> set (nodes g) \<longrightarrow> i = ID n) \<and>
     distinct (map fst (edges g)) \<and>
     (\<forall>f t w. ((f, t), w) \<in> set (edges g) \<longrightarrow> f \<noteq> t \<and> Node g f \<noteq> None \<and> Node g t \<noteq> None)"

text \<open>
  The edge from the location \<open>name\<close> to the location \<open>t\<close> in memory: both are nodes
  (stored under their identifiers with these very names) and the edge has the weight.
\<close>

definition mem_edges :: "WeightedDirectedGraph \<Rightarrow> string \<Rightarrow> string \<rightharpoonup> weight" where
  "mem_edges g name t =
     (if Node g (ID name) = Some name \<and> Node g (ID t) = Some t
      then map_of (edges g) (ID name, ID t) else None)"

text \<open>
  The mirror: the graph is well formed; for every name, the backend's hash of the name
  has exactly the fields of the edges that leave the location in memory, each with the
  text of its weight, and no field twice; and every member of the backend's set of
  location names is a node.
\<close>

definition mirrored :: "strconv \<Rightarrow> RouteStore \<Rightarrow> bool" where
  "mirrored sc rs \<longleftrightarrow>
     wf_graph (graph rs) \<and>
     (\<forall>name. map_of (edge_hash (redis rs) name) = map_option (FormatFloat sc) \<circ> mem_edges (graph rs) name) \<and>
     (\<forall>name. distinct (map fst (edge_hash (redis rs) name))) \<and>
     set (location_names (redis rs)) \<subseteq> set (Nodes (graph rs))"

lemma wf_distinct_nodes: "wf_graph g \<Longrightarrow> distinct (map fst (nodes g))"
  unfolding wf_graph_def by (elim conjE)

lemma wf_distinct_edges: "wf_graph g \<Longrightarrow> distinct (map fst (edges g))"
  unfolding wf_graph_def by (elim conjE)

lemma wf_Node_ID: "wf_graph g \<Longrightarrow> Node g i = Some n \<Longrightarrow> i = ID n"
  unfolding wf_graph_def Node_def by (blast dest: map_of_SomeD)

lemma wf_Nodes_iff:
  assumes "wf_graph g"
  shows "n \<in> set (Nodes g) \<longleftrightarrow> Node g (ID n) = Some n"
proof
  assume "n \<in> set (Nodes g)"
  then obtain i where "(i, n) \<in> set (nodes g)"
    by (auto simp: Nodes_def)
  moreover from this assms have "i = ID n"
    unfolding wf_graph_def by blast
  ultimately show "Node g (ID n) = Some n"
    using wf_distinct_nodes [OF assms] by (simp add: Node_def)
next
  assume "Node g (ID n) = Some n"
  then have "(ID n, n) \<in> set (nodes g)"
    unfolding Node_def by (rule map_of_SomeD)
  then show "n \<in> set (Nodes g)"
    by (force simp: Nodes_def)
qed

lemma wf_edge_nodes:
  assumes "wf_graph g" and "map_of (edges g) (f, t) = Some w"
  shows "Node g f \<noteq> None \<and> Node g t \<noteq> None \<and> f \<noteq> t"
proof -
  from assms(2) have "((f, t), w) \<in> set (edges g)"
    by (rule map_of_SomeD)
  with assms(1) show ?thesis
    unfolding wf_graph_def by blast
qed

lemma wf_no_edge_from: "wf_graph g \<Longrightarrow> Node g f = None \<Longrightarrow> map_of (edges g) (f, t) = None"
  using wf_edge_nodes [of g f t] by (cases "map_of (edges g) (f, t)") auto

lemma wf_no_edge_to: "wf_graph g \<Longrightarrow> Node g t = None \<Longrightarrow> map_of (edges g) (f, t) = None"
  using wf_edge_nodes [of g f t] by (cases "map_of (edges g) (f, t)") auto

text \<open>Names that do not clash: the identifier is injective on them and on the nodes.\<close>

lemma known_unique:
  assumes "wf_graph g" and "inj_on ID U" and "set (Nodes g) \<subseteq> U" and "x \<in> U"
    and "Node g (ID x) = Some y"
  shows "y = x"
proof -
  from assms(1,5) have "ID x = ID y"
    by (rule wf_Node_ID)
  moreover from assms(1,5) have "y \<in> set (Nodes g)"
    by (simp add: wf_Nodes_iff \<open>ID x = ID y\<close>)
  ultimately show ?thesis
    using assms(2,3,4) by (auto dest: inj_onD)
qed

lemma set_update_subset: "set (AList.update k v al) \<subseteq> insert (k, v) (set al)"
  by (induction al) auto

lemma Node_SetWeightedEdge:
  "SetWeightedEdge g a b w = Return g' \<Longrightarrow> Node g' = (Node g)(ID a \<mapsto> a, ID b \<mapsto> b)"
  by (auto simp: SetWeightedEdge_def Node_def update_conv' split: if_splits)

lemma edges_SetWeightedEdge:
  "SetWeightedEdge g a b w = Return g' \<Longrightarrow> map_of (edges g') = (map_of (edges g))((ID a, ID b) \<mapsto> w)"
  by (auto simp: SetWeightedEdge_def update_conv' split: if_splits)

lemma wf_SetWeightedEdge:
  assumes "wf_graph g" and "SetWeightedEdge g a b w = Return g'"
  shows "wf_graph g'"
proof -
  from assms(2) have ne: "ID a \<noteq> ID b"
    and n: "nodes g' = AList.update (ID b) b (AList.update (ID a) a (nodes g))"
    and e: "edges g' = AList.update (ID a, ID b) w (edges g)"
    by (auto simp: SetWeightedEdge_def split: if_splits)
  have N: "Node g' = (Node g)(ID a \<mapsto> a, ID b \<mapsto> b)"
    using assms(2) by (rule Node_SetWeightedEdge)
  have "distinct (map fst (nodes g'))"
    using wf_distinct_nodes [OF assms(1)] by (simp add: n distinct_update)
  moreover have "\<forall>i n. (i, n) \<in> set (nodes g') \<longrightarrow> i = ID n"
  proof (intro allI impI)
    fix i n assume "(i, n) \<in> set (nodes g')"
    then have "(i, n) \<in> insert (ID b, b) (set (AList.update (ID a) a (nodes g)))"
      unfolding n using set_update_subset by fastforce
    then have "(i, n) = (ID b, b) \<or> (i, n) = (ID a, a) \<or> (i, n) \<in> set (nodes g)"
      using set_update_subset [of "ID a" a "nodes g"] by auto
    then show "i = ID n"
      using assms(1) unfolding wf_graph_def by blast
  qed
  moreover have "distinct (map fst (edges g'))"
    using wf_distinct_edges [OF assms(1)] by (simp add: e distinct_update)
  moreover have "\<forall>f t w'. ((f, t), w') \<in> set (edges g') \<longrightarrow> f \<noteq> t \<and> Node g' f \<noteq> None \<and> Node g' t \<noteq> None"
  proof (intro allI impI)
    fix f t w' assume "((f, t), w') \<in> set (edges g')"
    then have "((f, t), w') = ((ID a, ID b), w) \<or> ((f, t), w') \<in> set (edges g)"
      unfolding e using set_update_subset [of "(ID a, ID b)" w "edges g"] by auto
    then show "f \<noteq> t \<and> Node g' f \<noteq> None \<and> Node g' t \<noteq> None"
    proof
      assume "((f, t), w') = ((ID a, ID b), w)"
      then show ?thesis
        using ne by (simp add: N)
    next
      assume "((f, t), w') \<in> set (edges g)"
      with assms(1) have "f \<noteq> t \<and> Node g f \<noteq> None \<and> Node g t \<noteq> None"
        unfolding wf_graph_def by blast
      then show ?thesis
        by (simp add: N)
    qed
  qed
  ultimately show ?thesis
    unfolding wf_graph_def by (intro conjI)
qed

lemma Nodes_SetWeightedEdge:
  assumes "wf_graph g" and "SetWeightedEdge g a b w = Return g'"
    and "Node g (ID a) = Some a" and "Node g (ID b) = None \<or> Node g (ID b) = Some b"
  shows "set (Nodes g') = insert b (set (Nodes g))"
proof -
  have wf': "wf_graph g'"
    using assms(1,2) by (rule wf_SetWeightedEdge)
  have N: "Node g' i = (if i = ID b then Some b else if i = ID a then Some a else Node g i)" for i
    using Node_SetWeightedEdge [OF assms(2)] by simp
  have "Node g' (ID n) = Some n \<longleftrightarrow> n = b \<or> Node g (ID n) = Some n" for n
  proof (cases "ID n = ID b")
    case True
    then show ?thesis
      using assms(4) by (auto simp: N)
  next
    case False
    then show ?thesis
      using assms(3) by (auto simp: N)
  qed
  then show ?thesis
    using wf_Nodes_iff [OF wf'] wf_Nodes_iff [OF assms(1)] by blast
qed


subsection \<open>Successful commands\<close>

lemma Do_ok_exec:
  "Do c cmd = (Inr r, c1) \<Longrightarrow> \<exists>ks. exec cmd (keys c) = (Inr r, ks) \<and> keys c1 = ks"
  by (auto simp: Do_def split: list.splits bool.splits if_splits intro: prod_eqI)

lemma Do_HSET_ok:
  assumes "Do c (HSET k f v) = (Inr r, c1)"
  shows "edge_hash c1 = (edge_hash c)(k := AList.update f v (edge_hash c k))"
    and "location_names c1 = location_names c"
proof -
  obtain ks where ex: "exec (HSET k f v) (keys c) = (Inr r, ks)" and ks: "keys c1 = ks"
    using Do_ok_exec [OF assms] by blast
  have noset: "\<forall>ms. keys c k \<noteq> Some (RSet ms)"
    using ex by (auto split: option.splits rvalue.splits)
  have k1: "keys c1 = (keys c)(k \<mapsto> RHash (AList.update f v (edge_hash c k)))"
    using ex ks by (auto simp: edge_hash_def split: option.splits rvalue.splits)
  show "edge_hash c1 = (edge_hash c)(k := AList.update f v (edge_hash c k))"
    by (rule ext) (simp add: edge_hash_def k1)
  show "location_names c1 = location_names c"
    using noset by (cases "keys c k") (auto simp: location_names_def k1 split: rvalue.splits)
qed

lemma Do_HDEL_ok:
  assumes "Do c (HDEL k f) = (Inr r, c1)"
  shows "edge_hash c1 = (edge_hash c)(k := AList.delete f (edge_hash c k))"
    and "location_names c1 = location_names c"
proof -
  obtain ks where ex: "exec (HDEL k f) (keys c) = (Inr r, ks)" and ks: "keys c1 = ks"
    using Do_ok_exec [OF assms] by blast
  have "edge_hash c1 = (edge_hash c)(k := AList.delete f (edge_hash c k)) \<and>
      location_names c1 = location_names c"
  proof (cases "keys c k")
    case None
    then have "keys c1 = keys c"
      using ex ks by simp
    then have "edge_hash c1 = edge_hash c" and "location_names c1 = location_names c"
      by (auto simp: edge_hash_def location_names_def)
    moreover have "edge_hash c k = []"
      using None by (simp add: edge_hash_def)
    ultimately show ?thesis
      by auto
  next
    case (Some v)
    then obtain h where h: "keys c k = Some (RHash h)"
      using ex by (cases v) auto
    have k1: "keys c1 = (if AList.delete f h = [] then (keys c)(k := None)
        else (keys c)(k \<mapsto> RHash (AList.delete f h)))"
      using ex ks h by auto
    have "edge_hash c1 x = ((edge_hash c)(k := AList.delete f (edge_hash c k))) x" for x
      using h by (simp add: edge_hash_def k1)
    moreover have "location_names c1 = location_names c"
      using h by (cases "k = locations_set") (auto simp: location_names_def k1)
    ultimately show ?thesis
      by auto
  qed
  then show "edge_hash c1 = (edge_hash c)(k := AList.delete f (edge_hash c k))"
    and "location_names c1 = location_names c"
    by simp_all
qed

lemma Do_SADD_ok:
  assumes "Do c (SADD locations_set m) = (Inr r, c1)"
  shows "edge_hash c1 = edge_hash c"
    and "set (location_names c1) = insert m (set (location_names c))"
proof -
  obtain ks where ex: "exec (SADD locations_set m) (keys c) = (Inr r, ks)" and ks: "keys c1 = ks"
    using Do_ok_exec [OF assms] by blast
  have nohash: "\<forall>h. keys c locations_set \<noteq> Some (RHash h)"
    using ex by (auto split: option.splits rvalue.splits)
  obtain n ms where "exec (SADD locations_set m) (keys c) = (Inr (Integer n), (keys c)(locations_set \<mapsto> RSet ms))"
    and ms: "set ms = insert m (case keys c locations_set of Some (RSet ms0) \<Rightarrow> set ms0 | _ \<Rightarrow> {})"
    using exec_SADD_ok [of "keys c" locations_set m] nohash by blast
  with ex ks have k1: "keys c1 = (keys c)(locations_set \<mapsto> RSet ms)"
    by simp
  show "edge_hash c1 = edge_hash c"
  proof (rule ext)
    fix x show "edge_hash c1 x = edge_hash c x"
      using nohash by (cases "keys c locations_set") (auto simp: edge_hash_def k1 split: rvalue.splits)
  qed
  show "set (location_names c1) = insert m (set (location_names c))"
    using ms by (auto simp: location_names_def k1 split: option.splits rvalue.splits)
qed


subsection \<open>The edges in memory, by name\<close>

lemma knows_SetWeightedEdge:
  assumes "wf_graph g" and "inj_on ID U" and "set (Nodes g) \<subseteq> U" and "a \<in> U" and "b \<in> U"
    and "Node g (ID a) = Some a" and "SetWeightedEdge g a b w = Return g'"
  shows "Node g' (ID n) = Some n \<longleftrightarrow> n = b \<or> Node g (ID n) = Some n"
proof -
  have N: "Node g' i = (if i = ID b then Some b else if i = ID a then Some a else Node g i)" for i
    using Node_SetWeightedEdge [OF assms(7)] by simp
  have b: "Node g (ID b) = Some y \<Longrightarrow> y = b" for y
    using known_unique [OF assms(1,2,3,5)] by simp
  show ?thesis
  proof (cases "ID n = ID b")
    case True
    then show ?thesis
      using b [of n] by (auto simp: N)
  next
    case False
    then show ?thesis
      using assms(6) by (auto simp: N)
  qed
qed

lemma mem_edges_SetWeightedEdge:
  assumes "wf_graph g" and "inj_on ID U" and "set (Nodes g) \<subseteq> U" and "a \<in> U" and "b \<in> U"
    and "Node g (ID a) = Some a" and "SetWeightedEdge g a b w = Return g'"
  shows "mem_edges g' n = (if n = a then (mem_edges g a)(b \<mapsto> w) else mem_edges g n)"
proof (rule ext)
  fix t
  note K = knows_SetWeightedEdge [OF assms]
  have E: "map_of (edges g') = (map_of (edges g))((ID a, ID b) \<mapsto> w)"
    using assms(7) by (rule edges_SetWeightedEdge)
  have ne: "ID a \<noteq> ID b"
    using assms(7) by (auto simp: SetWeightedEdge_def split: if_splits)
  have uq: "y = x" if "x \<in> U" and "Node g (ID y) = Some y" and "ID y = ID x" for x y
  proof -
    from that(2,3) have "Node g (ID x) = Some y"
      by metis
    with that(1) show ?thesis
      by (rule known_unique [OF assms(1,2,3)])
  qed
  have nb: "Node g (ID b) \<noteq> Some b \<Longrightarrow> Node g (ID b) = None"
    using known_unique [OF assms(1,2,3,5)] by (cases "Node g (ID b)") auto
  show "mem_edges g' n t = (if n = a then (mem_edges g a)(b \<mapsto> w) else mem_edges g n) t"
  proof (cases "n = a")
    case True
    show ?thesis
    proof (cases "t = b")
      case True
      with \<open>n = a\<close> show ?thesis
        by (simp add: mem_edges_def K E assms(6))
    next
      case False
      have "Node g (ID t) = Some t \<Longrightarrow> ID t \<noteq> ID b"
        using uq [OF assms(5), of t] False by auto
      with False \<open>n = a\<close> show ?thesis
        by (auto simp: mem_edges_def K E assms(6))
    qed
  next
    case False
    show ?thesis
    proof (cases "Node g (ID n) = Some n")
      case True
      then have "ID n \<noteq> ID a"
        using uq [OF assms(4), of n] False by auto
      moreover have "map_of (edges g) (ID n, ID b) = None" if "Node g (ID b) \<noteq> Some b"
        using wf_no_edge_to [OF assms(1) nb [OF that]] .
      ultimately show ?thesis
        using False True by (auto simp: mem_edges_def K E)
    next
      case nk: False
      have "map_of (edges g) (ID b, x) = None" if "Node g (ID b) \<noteq> Some b" for x
        using wf_no_edge_from [OF assms(1) nb [OF that]] .
      then show ?thesis
        using False nk ne by (auto simp: mem_edges_def K E)
    qed
  qed
qed

lemma mem_edges_AddNode:
  assumes "wf_graph g" and "Node g (ID a) = None"
  shows "mem_edges (g\<lparr>nodes := AList.update (ID a) a (nodes g)\<rparr>) = mem_edges g"
proof (intro ext)
  fix n t
  let ?g = "g\<lparr>nodes := AList.update (ID a) a (nodes g)\<rparr>"
  have N: "Node ?g i = (if i = ID a then Some a else Node g i)" for i
    by (simp add: Node_def update_conv')
  have K: "Node ?g (ID x) = Some x \<longleftrightarrow> x = a \<or> Node g (ID x) = Some x" for x
    using assms(2) by (auto simp: N)
  have "map_of (edges g) (ID a, x) = None" and "map_of (edges g) (x, ID a) = None" for x
    using wf_no_edge_from [OF assms] wf_no_edge_to [OF assms] by auto
  then show "mem_edges ?g n t = mem_edges g n t"
    by (auto simp: mem_edges_def K)
qed

lemma wf_AddNode:
  assumes "wf_graph g"
  shows "wf_graph (g\<lparr>nodes := AList.update (ID a) a (nodes g)\<rparr>)"
proof -
  let ?g = "g\<lparr>nodes := AList.update (ID a) a (nodes g)\<rparr>"
  have N: "Node ?g i = (if i = ID a then Some a else Node g i)" for i
    by (simp add: Node_def update_conv')
  have "distinct (map fst (nodes ?g))"
    using wf_distinct_nodes [OF assms] by (simp add: distinct_update)
  moreover have "\<forall>i n. (i, n) \<in> set (nodes ?g) \<longrightarrow> i = ID n"
  proof (intro allI impI)
    fix i n assume "(i, n) \<in> set (nodes ?g)"
    then have "(i, n) = (ID a, a) \<or> (i, n) \<in> set (nodes g)"
      using set_update_subset [of "ID a" a "nodes g"] by auto
    then show "i = ID n"
      using assms unfolding wf_graph_def by blast
  qed
  moreover have "distinct (map fst (edges ?g))"
    using wf_distinct_edges [OF assms] by simp
  moreover have "\<forall>f t w. ((f, t), w) \<in> set (edges ?g) \<longrightarrow> f \<noteq> t \<and> Node ?g f \<noteq> None \<and> Node ?g t \<noteq> None"
  proof (intro allI impI)
    fix f t w assume "((f, t), w) \<in> set (edges ?g)"
    then have "((f, t), w) \<in> set (edges g)"
      by simp
    with assms have "f \<noteq> t \<and> Node g f \<noteq> None \<and> Node g t \<noteq> None"
      unfolding wf_graph_def by blast
    then show "f \<noteq> t \<and> Node ?g f \<noteq> None \<and> Node ?g t \<noteq> None"
      by (simp add: N)
  qed
  ultimately show ?thesis
    unfolding wf_graph_def by (intro conjI)
qed

lemma Nodes_AddNode:
  assumes "wf_graph g" and "Node g (ID a) = None"
  shows "set (Nodes (g\<lparr>nodes := AList.update (ID a) a (nodes g)\<rparr>)) = insert a (set (Nodes g))"
proof -
  let ?g = "g\<lparr>nodes := AList.update (ID a) a (nodes g)\<rparr>"
  have N: "Node ?g i = (if i = ID a then Some a else Node g i)" for i
    by (simp add: Node_def update_conv')
  have "Node ?g (ID x) = Some x \<longleftrightarrow> x = a \<or> Node g (ID x) = Some x" for x
    using assms(2) by (auto simp: N)
  then show ?thesis
    using wf_Nodes_iff [OF wf_AddNode [OF assms(1), of a]] wf_Nodes_iff [OF assms(1)] by blast
qed


lemma wf_RemoveEdge:
  assumes "wf_graph g"
  shows "wf_graph (RemoveEdge g f t)"
proof (cases "Node g f = None \<or> Node g t = None")
  case True
  then show ?thesis
    using assms by (simp add: RemoveEdge_def)
next
  case False
  let ?g = "g\<lparr>edges := AList.delete (f, t) (edges g)\<rparr>"
  have sub: "set (edges ?g) \<subseteq> set (edges g)"
    by (auto simp: AList.delete_eq)
  have N: "Node ?g = Node g"
    by (rule ext) (simp add: Node_def)
  have "distinct (map fst (nodes ?g))"
    using wf_distinct_nodes [OF assms] by simp
  moreover have "\<forall>i n. (i, n) \<in> set (nodes ?g) \<longrightarrow> i = ID n"
    using assms unfolding wf_graph_def by simp
  moreover have "distinct (map fst (edges ?g))"
    using wf_distinct_edges [OF assms] by (simp add: distinct_delete)
  moreover have "\<forall>f' t' w. ((f', t'), w) \<in> set (edges ?g) \<longrightarrow> f' \<noteq> t' \<and> Node ?g f' \<noteq> None \<and> Node ?g t' \<noteq> None"
  proof (intro allI impI)
    fix f' t' w assume "((f', t'), w) \<in> set (edges ?g)"
    with sub have "((f', t'), w) \<in> set (edges g)"
      by blast
    with assms have "f' \<noteq> t' \<and> Node g f' \<noteq> None \<and> Node g t' \<noteq> None"
      unfolding wf_graph_def by blast
    then show "f' \<noteq> t' \<and> Node ?g f' \<noteq> None \<and> Node ?g t' \<noteq> None"
      by (simp add: N)
  qed
  ultimately have "wf_graph ?g"
    unfolding wf_graph_def by (intro conjI)
  moreover have "RemoveEdge g f t = ?g"
    using False by (auto simp: RemoveEdge_def)
  ultimately show ?thesis
    by simp
qed

lemma Node_RemoveEdge: "Node (RemoveEdge g f t) = Node g"
  by (rule ext) (simp add: RemoveEdge_def Node_def)

lemma Nodes_RemoveEdge: "Nodes (RemoveEdge g f t) = Nodes g"
  by (simp add: RemoveEdge_def Nodes_def)

lemma mem_edges_RemoveEdge:
  assumes "wf_graph g" and "inj_on ID U" and "set (Nodes g) \<subseteq> U" and "a \<in> U" and "b \<in> U"
    and "Node g (ID a) = Some a"
  shows "mem_edges (RemoveEdge g (ID a) (ID b)) n = (if n = a then (mem_edges g a)(b := None) else mem_edges g n)"
proof (rule ext)
  fix t
  let ?g = "RemoveEdge g (ID a) (ID b)"
  have N: "Node ?g = Node g"
    by (rule Node_RemoveEdge)
  have uq: "y = x" if "x \<in> U" and "Node g (ID y) = Some y" and "ID y = ID x" for x y
  proof -
    from that(2,3) have "Node g (ID x) = Some y"
      by metis
    with that(1) show ?thesis
      by (rule known_unique [OF assms(1,2,3)])
  qed
  have E: "map_of (edges ?g) = (if Node g (ID b) = None then map_of (edges g)
      else (map_of (edges g))((ID a, ID b) := None))"
    using assms(6) by (auto simp: RemoveEdge_def delete_conv')
  show "mem_edges ?g n t = (if n = a then (mem_edges g a)(b := None) else mem_edges g n) t"
  proof (cases "Node g (ID n) = Some n \<and> Node g (ID t) = Some t")
    case False
    then show ?thesis
      by (auto simp: mem_edges_def N)
  next
    case True
    then have n: "ID n = ID a \<longleftrightarrow> n = a" and t: "ID t = ID b \<longleftrightarrow> t = b"
      using uq [OF assms(4), of n] uq [OF assms(5), of t] by auto
    show ?thesis
      using True n t by (auto simp: mem_edges_def N E)
  qed
qed

subsection \<open>The loops keep the mirror\<close>

lemma setRoutes_mirrored:
  assumes "mirrored sc rs" and "Node (graph rs) (ID name) = Some name"
    and "inj_on ID U" and "set (Nodes (graph rs)) \<subseteq> U" and "name \<in> U" and "fst ` set routes \<subseteq> U"
    and "setRoutes sc name routes rs = (Return None, rs1)"
  shows "mirrored sc rs1 \<and> locked rs1 = locked rs"
  using assms(1,2,4,6,7)
proof (induction routes arbitrary: rs)
  case Nil
  then show ?case by simp
next
  case (Cons e routes)
  obtain to w where e: "e = (to, w)"
    by (cases e)
  show ?case
  proof (cases "name = to")
    case True
    with Cons e show ?thesis
      by simp
  next
    case False
    have wf: "wf_graph (graph rs)"
      using Cons.prems(1) by (simp add: mirrored_def)
    have toU: "to \<in> U"
      using Cons.prems(4) e by simp
    obtain g where g: "SetWeightedEdge (graph rs) name to w = Return g"
      using Cons.prems(5) e False by (cases "SetWeightedEdge (graph rs) name to w") auto
    obtain r c where d: "Do (redis rs) (HSET name to (FormatFloat sc w)) = (Inr r, c)"
      using Cons.prems(5) e False g
      by (cases "Do (redis rs) (HSET name to (FormatFloat sc w))") (auto split: sum.splits)
    define rs' where "rs' = rs\<lparr>graph := g, redis := c\<rparr>"
    have next_step: "setRoutes sc name routes rs' = (Return None, rs1)"
      using Cons.prems(5) e False g d by (simp add: rs'_def)
    have wf': "wf_graph g"
      using wf g by (rule wf_SetWeightedEdge)
    have M: "mem_edges g n = (if n = name then (mem_edges (graph rs) name)(to \<mapsto> w) else mem_edges (graph rs) n)" for n
      using mem_edges_SetWeightedEdge [OF wf assms(3) Cons.prems(3) assms(5) toU Cons.prems(2) g] .
    have to_node: "Node (graph rs) (ID to) = None \<or> Node (graph rs) (ID to) = Some to"
      using known_unique [OF wf assms(3) Cons.prems(3) toU] by (cases "Node (graph rs) (ID to)") auto
    have Ns: "set (Nodes g) = insert to (set (Nodes (graph rs)))"
      using Nodes_SetWeightedEdge [OF wf g Cons.prems(2) to_node] .
    have H: "edge_hash c = (edge_hash (redis rs))(name := AList.update to (FormatFloat sc w) (edge_hash (redis rs) name))"
      and L: "location_names c = location_names (redis rs)"
      using Do_HSET_ok [OF d] by simp_all
    have old: "map_of (edge_hash (redis rs) n) = map_option (FormatFloat sc) \<circ> mem_edges (graph rs) n" for n
      using Cons.prems(1) by (simp add: mirrored_def)
    have "map_of (edge_hash c n) = map_option (FormatFloat sc) \<circ> mem_edges g n" for n
      by (rule ext) (simp add: H M old update_conv')
    moreover have "distinct (map fst (edge_hash c n))" for n
      using Cons.prems(1) by (simp add: H mirrored_def distinct_update)
    moreover have "set (location_names c) \<subseteq> set (Nodes g)"
      using Cons.prems(1) by (auto simp: L Ns mirrored_def)
    ultimately have m': "mirrored sc rs'"
      using wf' by (simp add: mirrored_def rs'_def)
    have k': "Node (graph rs') (ID name) = Some name"
      using knows_SetWeightedEdge [OF wf assms(3) Cons.prems(3) assms(5) toU Cons.prems(2) g, of name]
        Cons.prems(2) by (simp add: rs'_def)
    have s': "set (Nodes (graph rs')) \<subseteq> U"
      using Cons.prems(3) toU by (simp add: rs'_def Ns)
    have "fst ` set routes \<subseteq> U"
      using Cons.prems(4) by simp
    from Cons.IH [OF m' k' s' this next_step] show ?thesis
      by (simp add: rs'_def)
  qed
qed

lemma unsetRoutes_mirrored:
  assumes "mirrored sc rs" and "Node (graph rs) (ID name) = Some name"
    and "inj_on ID U" and "set (Nodes (graph rs)) \<subseteq> U" and "name \<in> U" and "set tos \<subseteq> U"
    and "unsetRoutes name tos rs = (Return None, rs1)"
  shows "mirrored sc rs1 \<and> locked rs1 = locked rs"
  using assms(1,2,4,6,7)
proof (induction tos arbitrary: rs)
  case Nil
  then show ?case by simp
next
  case (Cons to tos)
  show ?case
  proof (cases "name = to")
    case True
    with Cons show ?thesis
      by simp
  next
    case False
    have wf: "wf_graph (graph rs)"
      using Cons.prems(1) by (simp add: mirrored_def)
    have toU: "to \<in> U"
      using Cons.prems(4) by simp
    obtain r c where d: "Do (redis rs) (HDEL name to) = (Inr r, c)"
      using Cons.prems(5) False
      by (cases "Do (redis rs) (HDEL name to)") (auto split: sum.splits)
    define g where "g = RemoveEdge (graph rs) (ID name) (ID to)"
    define rs' where "rs' = rs\<lparr>graph := g, redis := c\<rparr>"
    have next_step: "unsetRoutes name tos rs' = (Return None, rs1)"
      using Cons.prems(5) False d by (simp add: rs'_def g_def)
    have wf': "wf_graph g"
      unfolding g_def using wf by (rule wf_RemoveEdge)
    have M: "mem_edges g n = (if n = name then (mem_edges (graph rs) name)(to := None) else mem_edges (graph rs) n)" for n
      unfolding g_def
      using mem_edges_RemoveEdge [OF wf assms(3) Cons.prems(3) assms(5) toU Cons.prems(2)] .
    have H: "edge_hash c = (edge_hash (redis rs))(name := AList.delete to (edge_hash (redis rs) name))"
      and L: "location_names c = location_names (redis rs)"
      using Do_HDEL_ok [OF d] by simp_all
    have old: "map_of (edge_hash (redis rs) n) = map_option (FormatFloat sc) \<circ> mem_edges (graph rs) n" for n
      using Cons.prems(1) by (simp add: mirrored_def)
    have "map_of (edge_hash c n) = map_option (FormatFloat sc) \<circ> mem_edges g n" for n
      by (rule ext) (simp add: H M old delete_conv')
    moreover have "distinct (map fst (edge_hash c n))" for n
      using Cons.prems(1) by (simp add: H mirrored_def distinct_delete)
    moreover have "set (location_names c) \<subseteq> set (Nodes g)"
      using Cons.prems(1) by (simp add: L g_def Nodes_RemoveEdge mirrored_def)
    ultimately have m': "mirrored sc rs'"
      using wf' by (simp add: mirrored_def rs'_def)
    have k': "Node (graph rs') (ID name) = Some name"
      using Cons.prems(2) by (simp add: rs'_def g_def Node_RemoveEdge)
    have s': "set (Nodes (graph rs')) \<subseteq> U"
      using Cons.prems(3) by (simp add: rs'_def g_def Nodes_RemoveEdge)
    have "set tos \<subseteq> U"
      using Cons.prems(4) by simp
    from Cons.IH [OF m' k' s' this next_step] show ?thesis
      by (simp add: rs'_def)
  qed
qed


lemma mirrored_locked [simp]: "mirrored sc (rs\<lparr>locked := b\<rparr>) = mirrored sc rs"
  by (simp add: mirrored_def)

lemma known_by_name:
  assumes "wf_graph g" and "inj_on ID U" and "set (Nodes g) \<subseteq> U" and "x \<in> U"
    and "Node g (ID x) \<noteq> None"
  shows "Node g (ID x) = Some x"
  using known_unique [OF assms(1,2,3,4)] assms(5) by (cases "Node g (ID x)") auto

lemma AddRoutes_mirrored:
  assumes "mirrored sc rs" and "inj_on ID U" and "set (Nodes (graph rs)) \<subseteq> U" and "name \<in> U"
    and "fst ` set routes \<subseteq> U" and "AddRoutes sc rs name routes = Some (Return None, rs1)"
  shows "mirrored sc rs1"
proof -
  have wf: "wf_graph (graph rs)"
    using assms(1) by (simp add: mirrored_def)
  from assms(6) have unl: "\<not> locked rs" and kn: "Node (graph rs) (ID name) \<noteq> None"
    by (auto simp: AddRoutes_def locking_def Lock_def split: if_splits)
  then obtain rs2 where run: "setRoutes sc name routes (rs\<lparr>locked := True\<rparr>) = (Return None, rs2)"
    and rs1: "rs1 = Unlock rs2"
    using assms(6) by (auto simp: AddRoutes_def locking_def Lock_def split: prod.splits)
  have "Node (graph (rs\<lparr>locked := True\<rparr>)) (ID name) = Some name"
    using known_by_name [OF wf assms(2,3,4) kn] by simp
  from setRoutes_mirrored [OF _ this assms(2) _ assms(4,5) run] assms(1,3)
  have "mirrored sc rs2"
    by simp
  then show ?thesis
    by (simp add: rs1 Unlock_def)
qed

lemma RemoveRoutes_mirrored:
  assumes "mirrored sc rs" and "inj_on ID U" and "set (Nodes (graph rs)) \<subseteq> U" and "name \<in> U"
    and "set tos \<subseteq> U" and "RemoveRoutes rs name tos = Some (Return None, rs1)"
  shows "mirrored sc rs1"
proof -
  have wf: "wf_graph (graph rs)"
    using assms(1) by (simp add: mirrored_def)
  from assms(6) have unl: "\<not> locked rs" and kn: "Node (graph rs) (ID name) \<noteq> None"
    by (auto simp: RemoveRoutes_def locking_def Lock_def split: if_splits)
  then obtain rs2 where run: "unsetRoutes name tos (rs\<lparr>locked := True\<rparr>) = (Return None, rs2)"
    and rs1: "rs1 = Unlock rs2"
    using assms(6) by (auto simp: RemoveRoutes_def locking_def Lock_def split: prod.splits)
  have "Node (graph (rs\<lparr>locked := True\<rparr>)) (ID name) = Some name"
    using known_by_name [OF wf assms(2,3,4) kn] by simp
  from unsetRoutes_mirrored [OF _ this assms(2) _ assms(4,5) run] assms(1,3)
  have "mirrored sc rs2"
    by simp
  then show ?thesis
    by (simp add: rs1 Unlock_def)
qed

lemma AddLocation_mirrored:
  assumes "mirrored sc rs" and "inj_on ID U" and "set (Nodes (graph rs)) \<subseteq> U" and "name \<in> U"
    and "fst ` set routes \<subseteq> U" and "AddLocation sc rs name routes = Some (Return None, rs1)"
  shows "mirrored sc rs1"
proof -
  have wf: "wf_graph (graph rs)"
    using assms(1) by (simp add: mirrored_def)
  from assms(6) have unl: "\<not> locked rs" and new: "Node (graph rs) (ID name) = None"
    by (auto simp: AddLocation_def locking_def Lock_def split: if_splits)
  define g0 where "g0 = (graph rs)\<lparr>nodes := AList.update (ID name) name (nodes (graph rs))\<rparr>"
  have g0: "AddNode (graph rs) name = Return g0"
    using new by (simp add: AddNode_def g0_def)
  obtain r c where d: "Do (redis rs) (SADD locations_set name) = (Inr r, c)"
    using assms(6) unl new g0
    by (cases "Do (redis rs) (SADD locations_set name)")
      (auto simp: AddLocation_def locking_def Lock_def split: sum.splits)
  define rs0 where "rs0 = rs\<lparr>locked := True, graph := g0, redis := c\<rparr>"
  obtain rs2 where run: "setRoutes sc name routes rs0 = (Return None, rs2)"
    and rs1: "rs1 = Unlock rs2"
    using assms(6) unl new g0 d
    by (auto simp: AddLocation_def locking_def Lock_def rs0_def split: prod.splits)
  have wf0: "wf_graph g0"
    unfolding g0_def using wf by (rule wf_AddNode)
  have M: "mem_edges g0 = mem_edges (graph rs)"
    unfolding g0_def using wf new by (rule mem_edges_AddNode)
  have Ns: "set (Nodes g0) = insert name (set (Nodes (graph rs)))"
    unfolding g0_def using wf new by (rule Nodes_AddNode)
  have H: "edge_hash c = edge_hash (redis rs)"
    and L: "set (location_names c) = insert name (set (location_names (redis rs)))"
    using Do_SADD_ok [OF d] by simp_all
  have "set (location_names c) \<subseteq> set (Nodes g0)"
    using assms(1) by (auto simp: L Ns mirrored_def)
  then have m0: "mirrored sc rs0"
    using assms(1) wf0 by (simp add: mirrored_def rs0_def H M)
  have k0: "Node (graph rs0) (ID name) = Some name"
    by (simp add: rs0_def g0_def Node_def update_conv')
  have s0: "set (Nodes (graph rs0)) \<subseteq> U"
    using assms(3,4) by (simp add: rs0_def Ns)
  from setRoutes_mirrored [OF m0 k0 assms(2) s0 assms(4,5) run]
  show ?thesis
    by (simp add: rs1 Unlock_def)
qed

lemma wf_graph_empty: "wf_graph NewWeightedDirectedGraph"
  by (simp add: wf_graph_def NewWeightedDirectedGraph_def)

lemma mem_edges_no_edges: "edges g = [] \<Longrightarrow> mem_edges g n = Map.empty"
  by (rule ext) (simp add: mem_edges_def)

subsection \<open>Histories of successful calls\<close>

text \<open>
  The mutating calls that can succeed, and the store after a sequence of them when every
  one returned \<^verbatim>\<open>nil\<close> (\<open>None\<close> as soon as a call fails, panics or does not return).
\<close>

datatype mutation =
    AddLocationCall string "(string \<times> weight) list"
  | AddRoutesCall string "(string \<times> weight) list"
  | RemoveRoutesCall string "string list"

fun perform :: "strconv \<Rightarrow> RouteStore \<Rightarrow> mutation \<Rightarrow> (error option outcome \<times> RouteStore) option" where
  "perform sc rs (AddLocationCall name routes) = AddLocation sc rs name routes"
| "perform sc rs (AddRoutesCall name routes) = AddRoutes sc rs name routes"
| "perform sc rs (RemoveRoutesCall name tos) = RemoveRoutes rs name tos"

fun perform_all :: "strconv \<Rightarrow> mutation list \<Rightarrow> RouteStore \<Rightarrow> RouteStore option" where
  "perform_all sc [] rs = Some rs"
| "perform_all sc (m # ms) rs =
     (case perform sc rs m of
        Some (Return None, rs1) \<Rightarrow> perform_all sc ms rs1
      | _ \<Rightarrow> None)"

text \<open>
  The names a call mentions, the names the calls gave to \<open>AddLocation\<close>, and the names
  they gave as the target of an edge to set.
\<close>

fun names_of :: "mutation \<Rightarrow> string list" where
  "names_of (AddLocationCall name routes) = name # map fst routes"
| "names_of (AddRoutesCall name routes) = name # map fst routes"
| "names_of (RemoveRoutesCall name tos) = name # tos"

fun targets_of :: "mutation \<Rightarrow> string list" where
  "targets_of (AddLocationCall name routes) = filter (\<lambda>t. t \<noteq> name) (map fst routes)"
| "targets_of (AddRoutesCall name routes) = filter (\<lambda>t. t \<noteq> name) (map fst routes)"
| "targets_of (RemoveRoutesCall name tos) = []"

fun created_of :: "mutation \<Rightarrow> string list" where
  "created_of (AddLocationCall name routes) = [name]"
| "created_of (AddRoutesCall name routes) = []"
| "created_of (RemoveRoutesCall name tos) = []"

lemma setRoutes_effect:
  assumes "mirrored sc rs" and "Node (graph rs) (ID name) = Some name"
    and "inj_on ID U" and "set (Nodes (graph rs)) \<subseteq> U" and "name \<in> U" and "fst ` set routes \<subseteq> U"
    and "setRoutes sc name routes rs = (Return None, rs1)"
  shows "location_names (redis rs1) = location_names (redis rs) \<and>
    set (Nodes (graph rs1)) = set (Nodes (graph rs)) \<union> {t \<in> fst ` set routes. t \<noteq> name}"
  using assms(1,2,4,6,7)
proof (induction routes arbitrary: rs)
  case Nil
  then show ?case by simp
next
  case (Cons e routes)
  obtain to w where e: "e = (to, w)"
    by (cases e)
  show ?case
  proof (cases "name = to")
    case True
    with Cons e show ?thesis
      by auto
  next
    case False
    have wf: "wf_graph (graph rs)"
      using Cons.prems(1) by (simp add: mirrored_def)
    have toU: "to \<in> U"
      using Cons.prems(4) e by simp
    obtain g where g: "SetWeightedEdge (graph rs) name to w = Return g"
      using Cons.prems(5) e False by (cases "SetWeightedEdge (graph rs) name to w") auto
    obtain r c where d: "Do (redis rs) (HSET name to (FormatFloat sc w)) = (Inr r, c)"
      using Cons.prems(5) e False g
      by (cases "Do (redis rs) (HSET name to (FormatFloat sc w))") (auto split: sum.splits)
    define rs' where "rs' = rs\<lparr>graph := g, redis := c\<rparr>"
    have next_step: "setRoutes sc name routes rs' = (Return None, rs1)"
      using Cons.prems(5) e False g d by (simp add: rs'_def)
    have one: "setRoutes sc name [e] rs = (Return None, rs')"
      using e False g d by (simp add: rs'_def)
    have "fst ` set [e] \<subseteq> U"
      using toU e by simp
    from setRoutes_mirrored [OF Cons.prems(1,2) assms(3) Cons.prems(3) assms(5) this one]
    have m': "mirrored sc rs'"
      by simp
    have to_node: "Node (graph rs) (ID to) = None \<or> Node (graph rs) (ID to) = Some to"
      using known_unique [OF wf assms(3) Cons.prems(3) toU] by (cases "Node (graph rs) (ID to)") auto
    have Ns: "set (Nodes g) = insert to (set (Nodes (graph rs)))"
      using Nodes_SetWeightedEdge [OF wf g Cons.prems(2) to_node] .
    have L: "location_names c = location_names (redis rs)"
      using Do_HSET_ok [OF d] by simp
    have k': "Node (graph rs') (ID name) = Some name"
      using knows_SetWeightedEdge [OF wf assms(3) Cons.prems(3) assms(5) toU Cons.prems(2) g, of name]
        Cons.prems(2) by (simp add: rs'_def)
    have s': "set (Nodes (graph rs')) \<subseteq> U"
      using Cons.prems(3) toU by (simp add: rs'_def Ns)
    have "fst ` set routes \<subseteq> U"
      using Cons.prems(4) by simp
    from Cons.IH [OF m' k' s' this next_step] show ?thesis
      using False e by (auto simp: rs'_def L Ns)
  qed
qed

lemma unsetRoutes_effect:
  assumes "unsetRoutes name tos rs = (Return None, rs1)"
  shows "location_names (redis rs1) = location_names (redis rs) \<and> Nodes (graph rs1) = Nodes (graph rs)"
  using assms
proof (induction tos arbitrary: rs)
  case Nil
  then show ?case by simp
next
  case (Cons to tos)
  show ?case
  proof (cases "name = to")
    case True
    with Cons show ?thesis
      by simp
  next
    case False
    obtain r c where d: "Do (redis rs) (HDEL name to) = (Inr r, c)"
      using Cons.prems False
      by (cases "Do (redis rs) (HDEL name to)") (auto split: sum.splits)
    define rs' where "rs' = rs\<lparr>graph := RemoveEdge (graph rs) (ID name) (ID to), redis := c\<rparr>"
    have next_step: "unsetRoutes name tos rs' = (Return None, rs1)"
      using Cons.prems False d by (simp add: rs'_def)
    have L: "location_names c = location_names (redis rs)"
      using Do_HDEL_ok [OF d] by simp
    from Cons.IH [OF next_step] show ?thesis
      by (simp add: rs'_def L Nodes_RemoveEdge)
  qed
qed

lemma AddRoutes_effect:
  assumes "mirrored sc rs" and "inj_on ID U" and "set (Nodes (graph rs)) \<subseteq> U" and "name \<in> U"
    and "fst ` set routes \<subseteq> U" and "AddRoutes sc rs name routes = Some (Return None, rs1)"
  shows "location_names (redis rs1) = location_names (redis rs) \<and>
    set (Nodes (graph rs1)) = set (Nodes (graph rs)) \<union> {t \<in> fst ` set routes. t \<noteq> name}"
proof -
  have wf: "wf_graph (graph rs)"
    using assms(1) by (simp add: mirrored_def)
  from assms(6) have unl: "\<not> locked rs" and kn: "Node (graph rs) (ID name) \<noteq> None"
    by (auto simp: AddRoutes_def locking_def Lock_def split: if_splits)
  then obtain rs2 where run: "setRoutes sc name routes (rs\<lparr>locked := True\<rparr>) = (Return None, rs2)"
    and rs1: "rs1 = Unlock rs2"
    using assms(6) by (auto simp: AddRoutes_def locking_def Lock_def split: prod.splits)
  have "Node (graph (rs\<lparr>locked := True\<rparr>)) (ID name) = Some name"
    using known_by_name [OF wf assms(2,3,4) kn] by simp
  from setRoutes_effect [OF _ this assms(2) _ assms(4,5) run] assms(1,3)
  show ?thesis
    by (simp add: rs1 Unlock_def)
qed

lemma RemoveRoutes_effect:
  assumes "RemoveRoutes rs name tos = Some (Return None, rs1)"
  shows "location_names (redis rs1) = location_names (redis rs) \<and> Nodes (graph rs1) = Nodes (graph rs)"
proof -
  from assms have unl: "\<not> locked rs" and kn: "Node (graph rs) (ID name) \<noteq> None"
    by (auto simp: RemoveRoutes_def locking_def Lock_def split: if_splits)
  then obtain rs2 where run: "unsetRoutes name tos (rs\<lparr>locked := True\<rparr>) = (Return None, rs2)"
    and rs1: "rs1 = Unlock rs2"
    using assms by (auto simp: RemoveRoutes_def locking_def Lock_def split: prod.splits)
  from unsetRoutes_effect [OF run] show ?thesis
    by (simp add: rs1 Unlock_def)
qed

lemma AddLocation_effect:
  assumes "mirrored sc rs" and "inj_on ID U" and "set (Nodes (graph rs)) \<subseteq> U" and "name \<in> U"
    and "fst ` set routes \<subseteq> U" and "AddLocation sc rs name routes = Some (Return None, rs1)"
  shows "set (location_names (redis rs1)) = insert name (set (location_names (redis rs))) \<and>
    set (Nodes (graph rs1)) = insert name (set (Nodes (graph rs))) \<union> {t \<in> fst ` set routes. t \<noteq> name}"
proof -
  have wf: "wf_graph (graph rs)"
    using assms(1) by (simp add: mirrored_def)
  from assms(6) have unl: "\<not> locked rs" and new: "Node (graph rs) (ID name) = None"
    by (auto simp: AddLocation_def locking_def Lock_def split: if_splits)
  define g0 where "g0 = (graph rs)\<lparr>nodes := AList.update (ID name) name (nodes (graph rs))\<rparr>"
  have g0: "AddNode (graph rs) name = Return g0"
    using new by (simp add: AddNode_def g0_def)
  obtain r c where d: "Do (redis rs) (SADD locations_set name) = (Inr r, c)"
    using assms(6) unl new g0
    by (cases "Do (redis rs) (SADD locations_set name)")
      (auto simp: AddLocation_def locking_def Lock_def split: sum.splits)
  define rs0 where "rs0 = rs\<lparr>locked := True, graph := g0, redis := c\<rparr>"
  obtain rs2 where run: "setRoutes sc name routes rs0 = (Return None, rs2)"
    and rs1: "rs1 = Unlock rs2"
    using assms(6) unl new g0 d
    by (auto simp: AddLocation_def locking_def Lock_def rs0_def split: prod.splits)
  have wf0: "wf_graph g0"
    unfolding g0_def using wf by (rule wf_AddNode)
  have M: "mem_edges g0 = mem_edges (graph rs)"
    unfolding g0_def using wf new by (rule mem_edges_AddNode)
  have Ns: "set (Nodes g0) = insert name (set (Nodes (graph rs)))"
    unfolding g0_def using wf new by (rule Nodes_AddNode)
  have H: "edge_hash c = edge_hash (redis rs)"
    and L: "set (location_names c) = insert name (set (location_names (redis rs)))"
    using Do_SADD_ok [OF d] by simp_all
  have "set (location_names c) \<subseteq> set (Nodes g0)"
    using assms(1) by (auto simp: L Ns mirrored_def)
  then have m0: "mirrored sc rs0"
    using assms(1) wf0 by (simp add: mirrored_def rs0_def H M)
  have k0: "Node (graph rs0) (ID name) = Some name"
    by (simp add: rs0_def g0_def Node_def update_conv')
  have s0: "set (Nodes (graph rs0)) \<subseteq> U"
    using assms(3,4) by (simp add: rs0_def Ns)
  from setRoutes_effect [OF m0 k0 assms(2) s0 assms(4,5) run]
  show ?thesis
    by (simp add: rs1 Unlock_def rs0_def L Ns)
qed

lemma perform_all_mirrored:
  assumes "inj_on ID U"
  shows "mirrored sc rs \<Longrightarrow> set (Nodes (graph rs)) \<subseteq> U \<Longrightarrow> set (concat (map names_of ms)) \<subseteq> U \<Longrightarrow>
    perform_all sc ms rs = Some rs1 \<Longrightarrow>
    mirrored sc rs1 \<and>
    set (location_names (redis rs1)) = set (location_names (redis rs)) \<union> set (concat (map created_of ms)) \<and>
    set (Nodes (graph rs1)) =
      set (Nodes (graph rs)) \<union> set (concat (map created_of ms)) \<union> set (concat (map targets_of ms))"
proof (induction ms arbitrary: rs)
  case Nil
  then show ?case by simp
next
  case (Cons m ms)
  from Cons.prems(4) obtain rs' where step: "perform sc rs m = Some (Return None, rs')"
    and rest: "perform_all sc ms rs' = Some rs1"
    by (auto split: option.splits prod.splits outcome.splits)
  have namesU: "set (names_of m) \<subseteq> U" and restU: "set (concat (map names_of ms)) \<subseteq> U"
    using Cons.prems(3) by auto
  have one: "mirrored sc rs' \<and>
      set (location_names (redis rs')) = set (location_names (redis rs)) \<union> set (created_of m) \<and>
      set (Nodes (graph rs')) = set (Nodes (graph rs)) \<union> set (created_of m) \<union> set (targets_of m)"
  proof (cases m)
    case (AddLocationCall name routes)
    with step have run: "AddLocation sc rs name routes = Some (Return None, rs')"
      by simp
    have n: "name \<in> U" "fst ` set routes \<subseteq> U"
      using namesU AddLocationCall by auto
    from AddLocation_mirrored [OF Cons.prems(1) assms Cons.prems(2) n run]
      AddLocation_effect [OF Cons.prems(1) assms Cons.prems(2) n run]
    show ?thesis
      using AddLocationCall by auto
  next
    case (AddRoutesCall name routes)
    with step have run: "AddRoutes sc rs name routes = Some (Return None, rs')"
      by simp
    have n: "name \<in> U" "fst ` set routes \<subseteq> U"
      using namesU AddRoutesCall by auto
    from AddRoutes_mirrored [OF Cons.prems(1) assms Cons.prems(2) n run]
      AddRoutes_effect [OF Cons.prems(1) assms Cons.prems(2) n run]
    show ?thesis
      using AddRoutesCall by auto
  next
    case (RemoveRoutesCall name tos)
    with step have run: "RemoveRoutes rs name tos = Some (Return None, rs')"
      by simp
    have n: "name \<in> U" "set tos \<subseteq> U"
      using namesU RemoveRoutesCall by auto
    from RemoveRoutes_mirrored [OF Cons.prems(1) assms Cons.prems(2) n run]
      RemoveRoutes_effect [OF run]
    show ?thesis
      using RemoveRoutesCall by auto
  qed
  have sub': "set (Nodes (graph rs')) \<subseteq> U"
  proof -
    have "set (created_of m) \<subseteq> set (names_of m)" and "set (targets_of m) \<subseteq> set (names_of m)"
      by (cases m; auto)+
    with one namesU Cons.prems(2) show ?thesis
      by auto
  qed
  from Cons.IH [OF _ sub' restU rest] one show ?case
    by auto
qed

lemma mirrored_New:
  assumes "keys c = Map.empty"
  shows "mirrored sc (New c)"
proof -
  have "edge_hash c n = []" for n
    using assms by (simp add: edge_hash_def)
  moreover have "location_names c = []"
    using assms by (simp add: location_names_def)
  moreover have "mem_edges NewWeightedDirectedGraph n = Map.empty" for n
    by (rule mem_edges_no_edges) (simp add: NewWeightedDirectedGraph_def)
  ultimately show ?thesis
    using wf_graph_empty by (simp add: mirrored_def New_def)
qed

lemma successful_calls_mirrored:
  assumes "keys c = Map.empty" and "inj_on ID (set (concat (map names_of ms)))"
    and "perform_all sc ms (New c) = Some rs"
  shows "mirrored sc rs"
    and "set (location_names (redis rs)) = set (concat (map created_of ms))"
    and "set (Nodes (graph rs)) = set (concat (map created_of ms)) \<union> set (concat (map targets_of ms))"
proof -
  have l: "location_names (redis (New c)) = []"
    using assms(1) by (simp add: location_names_def New_def)
  have n: "Nodes (graph (New c)) = []"
    by (simp add: New_def NewWeightedDirectedGraph_def Nodes_def)
  from perform_all_mirrored [OF assms(2) mirrored_New [OF assms(1)] _ subset_refl assms(3)]
  show "mirrored sc rs"
    and "set (location_names (redis rs)) = set (concat (map created_of ms))"
    and "set (Nodes (graph rs)) = set (concat (map created_of ms)) \<union> set (concat (map targets_of ms))"
    by (simp_all add: l n)
qed

text \<open>
  Example stores: after \<open>AddLocation "A" {"B": 1}\<close> and \<open>AddRoutes "B" {"C": 1}\<close> on the
  empty backend; what \<open>Restore\<close> makes of that backend; and the restored store after
  \<open>AddRoutes "B" {"D": 2}\<close>.
\<close>

lemma ID_D: "ID ''D'' = 12638153115695167387"
  by (simp add: ID_def offset64_def prime64_def)

definition storeChain :: RouteStore where
  "storeChain =
     \<lparr>locked = False,
      graph = \<lparr>nodes = [(ID ''A'', ''A''), (ID ''B'', ''B''), (ID ''C'', ''C'')],
               edges = [((ID ''A'', ID ''B''), 1), ((ID ''B'', ID ''C''), 1)]\<rparr>,
      redis = \<lparr>keys = [locations_set \<mapsto> RSet [''A''], ''A'' \<mapsto> RHash [(''B'', ''1'')],
                       ''B'' \<mapsto> RHash [(''C'', ''1'')]],
               faults = []\<rparr>\<rparr>"

lemma AddRoutes_storeAB: "AddRoutes decimal storeAB ''B'' [(''C'', 1)] = Some (Return None, storeChain)"
  by (simp add: store_defs storeAB_def storeChain_def decimal_def ID_A ID_B ID_C fun_upd_twist)

definition storeChainRestored :: RouteStore where
  "storeChainRestored =
     \<lparr>locked = False,
      graph = \<lparr>nodes = [(ID ''A'', ''A''), (ID ''B'', ''B'')], edges = [((ID ''A'', ID ''B''), 1)]\<rparr>,
      redis = redis storeChain\<rparr>"

lemma Restore_storeChain:
  "Restore decimal (redis storeChain) = Some (Return (Some storeChainRestored, None))"
  by (simp add: Restore_def getEdges_def store_defs storeChain_def storeChainRestored_def decimal_def ID_A ID_B ID_C fun_upd_twist)

definition storeChainD :: RouteStore where
  "storeChainD =
     \<lparr>locked = False,
      graph = \<lparr>nodes = [(ID ''A'', ''A''), (ID ''B'', ''B''), (ID ''D'', ''D'')],
               edges = [((ID ''A'', ID ''B''), 1), ((ID ''B'', ID ''D''), 2)]\<rparr>,
      redis = \<lparr>keys = [locations_set \<mapsto> RSet [''A''], ''A'' \<mapsto> RHash [(''B'', ''1'')],
                       ''B'' \<mapsto> RHash [(''C'', ''1''), (''D'', ''2'')]],
               faults = []\<rparr>\<rparr>"

lemma AddRoutes_storeChainRestored:
  "AddRoutes decimal storeChainRestored ''B'' [(''D'', 2)] = Some (Return None, storeChainD)"
  by (simp add: store_defs storeChain_def storeChainRestored_def storeChainD_def decimal_def
      ID_A ID_B ID_C ID_D fun_upd_twist)

text \<open>An empty backend on a connection whose second command fails.\<close>

definition failing2 :: conn where
  "failing2 = \<lparr>keys = Map.empty, faults = [False, True]\<rparr>"

definition storeHalf :: RouteStore where
  "storeHalf =
     \<lparr>locked = False,
      graph = \<lparr>nodes = [(ID ''A'', ''A''), (ID ''B'', ''B'')], edges = [((ID ''A'', ID ''B''), 1)]\<rparr>,
      redis = \<lparr>keys = [locations_set \<mapsto> RSet [''A'']], faults = []\<rparr>\<rparr>"

definition storeHalfC :: RouteStore where
  "storeHalfC =
     \<lparr>locked = False,
      graph = \<lparr>nodes = [(ID ''A'', ''A''), (ID ''B'', ''B''), (ID ''C'', ''C'')],
               edges = [((ID ''A'', ID ''B''), 1), ((ID ''A'', ID ''C''), 1)]\<rparr>,
      redis = \<lparr>keys = [locations_set \<mapsto> RSet [''A''], ''A'' \<mapsto> RHash [(''C'', ''1'')]], faults = []\<rparr>\<rparr>"

lemma AddLocation_failing2:
  "AddLocation decimal (New failing2) ''A'' [(''B'', 1)] = Some (Return (Some ConnError), storeHalf)"
  by (simp add: store_defs storeHalf_def failing2_def decimal_def ID_A ID_B fun_upd_twist)

lemma AddRoutes_storeHalf:
  "AddRoutes decimal storeHalf ''A'' [(''C'', 1)] = Some (Return None, storeHalfC)"
  by (simp add: store_defs storeHalf_def storeHalfC_def decimal_def ID_A ID_B ID_C fun_upd_twist)

text \<open>
  C1, amended: take a store created on an empty backend and a sequence of calls of
  \<open>AddLocation\<close>, \<open>AddRoutes\<close> and \<open>RemoveRoutes\<close> that all returned without an error,
  with names whose identifiers do not collide. In the store they leave, the backend's
  hash of every name has exactly the edges that leave the location of that name in memory
  (the same targets, each with the text of its weight, no field twice); the backend's set
  of location names holds exactly the names given to \<open>AddLocation\<close>; and the nodes in
  memory are these names together with the names given as the target of an edge.
\<close>

theorem mirror_after_successful_calls:
  assumes "keys c = Map.empty" and "inj_on ID (set (concat (map names_of ms)))"
    and "perform_all sc ms (New c) = Some rs"
  shows "(\<forall>name. map_of (edge_hash (redis rs) name) = map_option (FormatFloat sc) \<circ> mem_edges (graph rs) name) \<and>
    (\<forall>name. distinct (map fst (edge_hash (redis rs) name))) \<and>
    set (location_names (redis rs)) = set (concat (map created_of ms)) \<and>
    set (Nodes (graph rs)) = set (concat (map created_of ms)) \<union> set (concat (map targets_of ms))"
  using successful_calls_mirrored [OF assms] by (simp add: mirrored_def)

theorem mirror_after_successful_calls_witness:
  "keys fresh = Map.empty \<and>
   inj_on ID (set (concat (map names_of
     [AddLocationCall ''A'' [(''B'', 1)], AddRoutesCall ''B'' [(''C'', 1)]]))) \<and>
   perform_all decimal [AddLocationCall ''A'' [(''B'', 1)], AddRoutesCall ''B'' [(''C'', 1)]] (New fresh)
     = Some storeChain \<and>
   (\<forall>name. map_of (edge_hash (redis storeChain) name)
      = map_option (FormatFloat decimal) \<circ> mem_edges (graph storeChain) name) \<and>
   (\<forall>name. distinct (map fst (edge_hash (redis storeChain) name))) \<and>
   set (location_names (redis storeChain)) = {''A''} \<and>
   set (Nodes (graph storeChain)) = {''A''} \<union> {''B'', ''C''}"
proof -
  let ?ms = "[AddLocationCall ''A'' [(''B'', 1)], AddRoutesCall ''B'' [(''C'', 1)]]"
  have h1: "keys fresh = Map.empty"
    by (simp add: fresh_def)
  have h2: "inj_on ID (set (concat (map names_of ?ms)))"
    by (simp add: ID_A ID_B ID_C)
  have h3: "perform_all decimal ?ms (New fresh) = Some storeChain"
    by (simp add: AddLocation_fresh_AB AddRoutes_storeAB)
  show ?thesis
    using h1 h2 h3 mirror_after_successful_calls [OF h1 h2 h3] by simp
qed

text \<open>
  C1, as stated, fails. After the successful \<open>AddLocation "A" {"B": 1}\<close> on the empty
  store the nodes in memory are \<open>A\<close> and \<open>B\<close>, and the backend's set of location names
  holds \<open>A\<close> only. After the further \<open>AddRoutes "B" {"C": 1}\<close>, a restart (\<open>Restore\<close>)
  and the successful \<open>AddRoutes "B" {"D": 2}\<close>, the hash of \<open>B\<close> holds the fields \<open>C\<close>
  and \<open>D\<close> and the only edge that leaves \<open>B\<close> in memory goes to \<open>D\<close>. And after an
  \<open>AddLocation "A" {"B": 1}\<close> whose write of the edge fails, the successful
  \<open>AddRoutes "A" {"C": 1}\<close> leaves the hash of \<open>A\<close> with the field \<open>C\<close> only, while the
  edges to \<open>B\<close> and \<open>C\<close> leave \<open>A\<close> in memory.
\<close>

theorem mirror_broken:
  "AddLocation decimal (New fresh) ''A'' [(''B'', 1)] = Some (Return None, storeAB) \<and>
   GetLocations storeAB = Some (Return [''A'', ''B''], storeAB) \<and>
   location_names (redis storeAB) = [''A''] \<and>
   AddRoutes decimal storeAB ''B'' [(''C'', 1)] = Some (Return None, storeChain) \<and>
   Restore decimal (redis storeChain) = Some (Return (Some storeChainRestored, None)) \<and>
   AddRoutes decimal storeChainRestored ''B'' [(''D'', 2)] = Some (Return None, storeChainD) \<and>
   RoutesFrom storeChainD ''B'' = Some (Return ([''D''], None), storeChainD) \<and>
   edge_hash (redis storeChainD) ''B'' = [(''C'', ''1''), (''D'', ''2'')] \<and>
   AddLocation decimal (New failing2) ''A'' [(''B'', 1)] = Some (Return (Some ConnError), storeHalf) \<and>
   AddRoutes decimal storeHalf ''A'' [(''C'', 1)] = Some (Return None, storeHalfC) \<and>
   RoutesFrom storeHalfC ''A'' = Some (Return ([''B'', ''C''], None), storeHalfC) \<and>
   edge_hash (redis storeHalfC) ''A'' = [(''C'', ''1'')]"
proof -
  have "GetLocations storeAB = Some (Return [''A'', ''B''], storeAB)"
    and "location_names (redis storeAB) = [''A'']"
    by (simp_all add: store_defs storeAB_def location_names_def)
  moreover have "RoutesFrom storeChainD ''B'' = Some (Return ([''D''], None), storeChainD)"
    and "edge_hash (redis storeChainD) ''B'' = [(''C'', ''1''), (''D'', ''2'')]"
    by (simp_all add: store_defs storeChainD_def edge_hash_def ID_A ID_B ID_D List.map_filter_simps)
  moreover have "RoutesFrom storeHalfC ''A'' = Some (Return ([''B'', ''C''], None), storeHalfC)"
    and "edge_hash (redis storeHalfC) ''A'' = [(''C'', ''1'')]"
    by (simp_all add: store_defs storeHalfC_def edge_hash_def ID_A ID_B ID_C List.map_filter_simps)
  ultimately show ?thesis
    using AddLocation_fresh_AB AddRoutes_storeAB Restore_storeChain AddRoutes_storeChainRestored
      AddLocation_failing2 AddRoutes_storeHalf
    by (intro conjI)
qed

section \<open>Restoring the store after successful calls\<close>

text \<open>The store after \<open>AddLocation "A" {"B": 1}\<close> and \<open>RemoveRoutes "A" ["B"]\<close>.\<close>

definition storeAB0 :: RouteStore where
  "storeAB0 =
     \<lparr>locked = False,
      graph = \<lparr>nodes = [(ID ''A'', ''A''), (ID ''B'', ''B'')], edges = []\<rparr>,
      redis = \<lparr>keys = [locations_set \<mapsto> RSet [''A'']], faults = []\<rparr>\<rparr>"

lemma RemoveRoutes_storeAB: "RemoveRoutes storeAB ''A'' [''B''] = Some (Return None, storeAB0)"
  by (simp add: store_defs storeAB_def storeAB0_def ID_A ID_B)

lemma Restore_storeAB0: "Restore decimal (redis storeAB0) = Some (Return (Some storeA, None))"
  by (simp add: Restore_def getEdges_def store_defs storeAB0_def storeA_def)

text \<open>
  C9, as stated, fails. After the successful \<open>AddLocation "A" {"B": 1}\<close> and
  \<open>RemoveRoutes "A" ["B"]\<close> the nodes in memory are \<open>A\<close> and \<open>B\<close>; \<open>Restore\<close> on that
  backend yields a store whose only node is \<open>A\<close>. After the successful
  \<open>AddLocation "A" {"B": 1}\<close> and \<open>AddRoutes "B" {"C": 1}\<close> an edge leaves \<open>B\<close> in
  memory; \<open>Restore\<close> on that backend yields a store with the nodes \<open>A\<close> and \<open>B\<close> and
  no edge from \<open>B\<close>.
\<close>

theorem Restore_loses_edge_target:
  "AddLocation decimal (New fresh) ''A'' [(''B'', 1)] = Some (Return None, storeAB) \<and>
   RemoveRoutes storeAB ''A'' [''B''] = Some (Return None, storeAB0) \<and>
   GetLocations storeAB0 = Some (Return [''A'', ''B''], storeAB0) \<and>
   Restore decimal (redis storeAB0) = Some (Return (Some storeA, None)) \<and>
   GetLocations storeA = Some (Return [''A''], storeA) \<and>
   AddRoutes decimal storeAB ''B'' [(''C'', 1)] = Some (Return None, storeChain) \<and>
   GetLocations storeChain = Some (Return [''A'', ''B'', ''C''], storeChain) \<and>
   RoutesFrom storeChain ''B'' = Some (Return ([''C''], None), storeChain) \<and>
   Restore decimal (redis storeChain) = Some (Return (Some storeChainRestored, None)) \<and>
   GetLocations storeChainRestored = Some (Return [''A'', ''B''], storeChainRestored) \<and>
   RoutesFrom storeChainRestored ''B'' = Some (Return ([], None), storeChainRestored)"
proof -
  have "GetLocations storeAB0 = Some (Return [''A'', ''B''], storeAB0)"
    and "GetLocations storeA = Some (Return [''A''], storeA)"
    by (simp_all add: store_defs storeAB0_def storeA_def)
  moreover have "GetLocations storeChain = Some (Return [''A'', ''B'', ''C''], storeChain)"
    and "RoutesFrom storeChain ''B'' = Some (Return ([''C''], None), storeChain)"
    by (simp_all add: store_defs storeChain_def ID_A ID_B ID_C List.map_filter_simps)
  moreover have "GetLocations storeChainRestored = Some (Return [''A'', ''B''], storeChainRestored)"
    and "RoutesFrom storeChainRestored ''B'' = Some (Return ([], None), storeChainRestored)"
    by (simp_all add: store_defs storeChainRestored_def ID_A ID_B List.map_filter_simps)
  ultimately show ?thesis
    using AddLocation_fresh_AB RemoveRoutes_storeAB Restore_storeAB0 AddRoutes_storeAB Restore_storeChain
    by (intro conjI)
qed

lemma Do_no_fault:
  "faults c = [] \<Longrightarrow> Do c cmd = (fst (exec cmd (keys c)), c\<lparr>keys := snd (exec cmd (keys c))\<rparr>)"
  by (simp add: Do_def)

lemma Do_SMEMBERS:
  assumes "faults c = []" and "\<forall>h. keys c locations_set \<noteq> Some (RHash h)"
  shows "Do c (SMEMBERS locations_set) = (Inr (Bulks (location_names c)), c)"
proof (cases "keys c locations_set")
  case None
  then show ?thesis
    using assms(1) by (simp add: Do_no_fault location_names_def)
next
  case (Some v)
  then show ?thesis
    using assms by (cases v) (simp_all add: Do_no_fault location_names_def)
qed

lemma Do_SADD_member:
  assumes "faults c = []" and "m \<in> set (location_names c)"
  shows "Do c (SADD locations_set m) = (Inr (Integer 0), c)"
proof -
  from assms(2) obtain ms where "keys c locations_set = Some (RSet ms)" and "m \<in> set ms"
    by (cases "keys c locations_set") (auto simp: location_names_def split: rvalue.splits)
  then show ?thesis
    using assms(1) by (simp add: Do_no_fault)
qed

lemma Do_HGETALL:
  assumes "faults c = []" and "\<forall>ms. keys c k \<noteq> Some (RSet ms)"
  shows "Do c (HGETALL k) = (Inr (Fields (edge_hash c k)), c)"
proof (cases "keys c k")
  case None
  then show ?thesis
    using assms(1) by (simp add: Do_no_fault edge_hash_def)
next
  case (Some v)
  then show ?thesis
    using assms by (cases v) (simp_all add: Do_no_fault edge_hash_def)
qed

lemma Do_HSET_same:
  assumes "faults c = []" and "map_of (edge_hash c k) f = Some v"
  shows "Do c (HSET k f v) = (Inr (Integer 0), c)"
proof -
  from assms(2) obtain h where h: "keys c k = Some (RHash h)" and m: "map_of h f = Some v"
    by (cases "keys c k") (auto simp: edge_hash_def split: rvalue.splits)
  have "AList.update f v h = h"
    using m by (rule update_triv)
  moreover have "f \<in> fst ` set h"
    using m by (metis domI dom_map_of_conv_image_fst)
  moreover have "(keys c)(k \<mapsto> RHash h) = keys c"
    using h by (simp add: fun_upd_idem)
  ultimately show ?thesis
    using assms(1) h by (simp add: Do_no_fault)
qed


lemma AddLocation_restore:
  assumes "\<not> locked ret" and "faults (redis ret) = []" and "loc \<in> set (location_names (redis ret))"
  shows "\<exists>r. AddLocation sc ret loc [] =
    Some (Return r, ret\<lparr>graph := (if Node (graph ret) (ID loc) = None
        then (graph ret)\<lparr>nodes := AList.update (ID loc) loc (nodes (graph ret))\<rparr> else graph ret)\<rparr>)"
proof (cases "Node (graph ret) (ID loc) = None")
  case True
  then show ?thesis
    using assms Do_SADD_member [OF assms(2,3)]
    by (simp add: AddLocation_def locking_def Lock_def Unlock_def AddNode_def)
next
  case False
  then show ?thesis
    using assms(1) by (auto simp: AddLocation_def locking_def Lock_def Unlock_def)
qed

lemma getEdges_restore:
  assumes "faults c = []" and "\<forall>ms. keys c loc \<noteq> Some (RSet ms)"
  shows "getEdges sc c loc = (parseEdges sc (edge_hash c loc) [], c)"
  by (simp add: getEdges_def Do_HGETALL [OF assms])

lemma parseEdges_ok:
  assumes "distinct (map fst h)" and "\<forall>(k, v) \<in> set h. ParseFloat sc v \<noteq> None"
  shows "\<exists>al. parseEdges sc h acc = Inr al \<and>
      map_of al = (\<lambda>t. case map_of h t of Some v \<Rightarrow> ParseFloat sc v | None \<Rightarrow> map_of acc t) \<and>
      (distinct (map fst acc) \<longrightarrow> distinct (map fst al))"
  using assms
proof (induction h arbitrary: acc)
  case Nil
  then show ?case by simp
next
  case (Cons e h)
  obtain k v where e: "e = (k, v)"
    by (cases e)
  from Cons.prems e obtain w where w: "ParseFloat sc v = Some w"
    by auto
  have d: "distinct (map fst h)" and p: "\<forall>(k, v) \<in> set h. ParseFloat sc v \<noteq> None"
    and k: "map_of h k = None"
    using Cons.prems e by (auto simp: map_of_eq_None_iff)
  from Cons.IH [OF d p, of "AList.update k w acc"] obtain al
    where al: "parseEdges sc h (AList.update k w acc) = Inr al"
      and m: "map_of al = (\<lambda>t. case map_of h t of Some v \<Rightarrow> ParseFloat sc v
          | None \<Rightarrow> map_of (AList.update k w acc) t)"
      and dd: "distinct (map fst (AList.update k w acc)) \<longrightarrow> distinct (map fst al)"
    by blast
  have "parseEdges sc (e # h) acc = Inr al"
    using e w al by simp
  moreover have "map_of al = (\<lambda>t. case map_of (e # h) t of Some v \<Rightarrow> ParseFloat sc v | None \<Rightarrow> map_of acc t)"
    by (rule ext) (auto simp: m e w k update_conv' split: option.splits)
  moreover have "distinct (map fst acc) \<longrightarrow> distinct (map fst al)"
    using dd by (simp add: distinct_update)
  ultimately show ?case
    by blast
qed

text \<open>The edges of a location as \<open>getEdges\<close> reads them from the backend.\<close>

definition parsed :: "strconv \<Rightarrow> conn \<Rightarrow> string \<Rightarrow> (string \<times> weight) list" where
  "parsed sc c n = (case parseEdges sc (edge_hash c n) [] of Inr al \<Rightarrow> al | Inl e \<Rightarrow> [])"

lemma restoreLocations_ok:
  assumes "\<not> locked ret" and "redis ret = c" and "faults c = []"
    and "set ls \<subseteq> set (location_names c)"
    and "\<forall>n \<in> set ls. (\<forall>ms. keys c n \<noteq> Some (RSet ms)) \<and> distinct (map fst (edge_hash c n)) \<and>
        (\<forall>(k, v) \<in> set (edge_hash c n). ParseFloat sc v \<noteq> None)"
    and "wf_graph (graph ret)" and "edges (graph ret) = []"
    and "inj_on ID (set (Nodes (graph ret)) \<union> set ls)"
  shows "\<exists>ret1 routes1. restoreLocations sc ls routes ret = Some (Return (Inr routes1), ret1) \<and>
      \<not> locked ret1 \<and> redis ret1 = c \<and> wf_graph (graph ret1) \<and> edges (graph ret1) = [] \<and>
      set (Nodes (graph ret1)) = set (Nodes (graph ret)) \<union> set ls \<and>
      (\<forall>n. map_of routes1 n = (if n \<in> set ls then Some (parsed sc c n) else map_of routes n)) \<and>
      (distinct (map fst routes) \<longrightarrow> distinct (map fst routes1))"
  using assms(1,2,4,5,6,7,8)
proof (induction ls arbitrary: ret routes)
  case Nil
  then show ?case by simp
next
  case (Cons loc ls)
  let ?G = "graph ret"
  define G1 where "G1 = (if Node ?G (ID loc) = None
        then ?G\<lparr>nodes := AList.update (ID loc) loc (nodes ?G)\<rparr> else ?G)"
  define ret1 where "ret1 = ret\<lparr>graph := G1\<rparr>"
  have locin: "loc \<in> set (location_names (redis ret))"
    using Cons.prems(2,3) by simp
  obtain r where add: "AddLocation sc ret loc [] = Some (Return r, ret1)"
    using AddLocation_restore [OF Cons.prems(1) _ locin] assms(3) Cons.prems(2)
    unfolding ret1_def G1_def by auto
  have key: "\<forall>ms. keys c loc \<noteq> Some (RSet ms)" and dist: "distinct (map fst (edge_hash c loc))"
    and prs: "\<forall>(k, v) \<in> set (edge_hash c loc). ParseFloat sc v \<noteq> None"
    using Cons.prems(4) by auto
  obtain al where al: "parseEdges sc (edge_hash c loc) [] = Inr al"
    using parseEdges_ok [OF dist prs, of "[]"] by blast
  then have pal: "parsed sc c loc = al"
    by (simp add: parsed_def)
  have ge: "getEdges sc (redis ret1) loc = (Inr al, c)"
    using getEdges_restore [OF assms(3) key, of sc] al Cons.prems(2) by (simp add: ret1_def)
  have same: "ret1\<lparr>redis := c\<rparr> = ret1"
    using Cons.prems(2) by (cases ret) (auto simp: ret1_def)
  have step: "restoreLocations sc (loc # ls) routes ret =
      restoreLocations sc ls (AList.update loc al routes) ret1"
    using add ge same by simp
  have wf1: "wf_graph G1"
    using Cons.prems(5) by (simp add: G1_def wf_AddNode)
  have N1: "set (Nodes G1) = insert loc (set (Nodes ?G))"
  proof (cases "Node ?G (ID loc) = None")
    case True
    then show ?thesis
      using Nodes_AddNode [OF Cons.prems(5) True] by (simp add: G1_def)
  next
    case False
    have "inj_on ID (set (Nodes ?G) \<union> set (loc # ls))"
      using Cons.prems(7) .
    from known_by_name [OF Cons.prems(5) this _ _ False] have "Node ?G (ID loc) = Some loc"
      by auto
    then have "loc \<in> set (Nodes ?G)"
      using Cons.prems(5) by (simp add: wf_Nodes_iff)
    with False show ?thesis
      by (auto simp: G1_def)
  qed
  have e1: "edges G1 = []"
    using Cons.prems(6) by (simp add: G1_def)
  have inj1: "inj_on ID (set (Nodes (graph ret1)) \<union> set ls)"
    using Cons.prems(7) by (simp add: ret1_def N1 insert_commute Un_commute)
  have sub1: "set ls \<subseteq> set (location_names c)"
    and rest: "\<forall>n \<in> set ls. (\<forall>ms. keys c n \<noteq> Some (RSet ms)) \<and> distinct (map fst (edge_hash c n)) \<and>
        (\<forall>(k, v) \<in> set (edge_hash c n). ParseFloat sc v \<noteq> None)"
    using Cons.prems(3,4) by auto
  from Cons.IH [of ret1 "AList.update loc al routes", OF _ _ sub1 rest _ _ inj1]
    Cons.prems(1,2) wf1 e1
  obtain ret2 routes2 where
    run: "restoreLocations sc ls (AList.update loc al routes) ret1 = Some (Return (Inr routes2), ret2)"
    and props: "\<not> locked ret2" "redis ret2 = c" "wf_graph (graph ret2)" "edges (graph ret2) = []"
      "set (Nodes (graph ret2)) = set (Nodes (graph ret1)) \<union> set ls"
    and rts: "\<forall>n. map_of routes2 n = (if n \<in> set ls then Some (parsed sc c n)
        else map_of (AList.update loc al routes) n)"
    and drts: "distinct (map fst (AList.update loc al routes)) \<longrightarrow> distinct (map fst routes2)"
    by (auto simp: ret1_def)
  have "\<forall>n. map_of routes2 n = (if n \<in> set (loc # ls) then Some (parsed sc c n) else map_of routes n)"
    using rts pal by (auto simp: update_conv')
  moreover have "set (Nodes (graph ret2)) = set (Nodes (graph ret)) \<union> set (loc # ls)"
    using props(5) by (auto simp: ret1_def N1)
  moreover have "distinct (map fst routes) \<longrightarrow> distinct (map fst routes2)"
    using drts by (simp add: distinct_update)
  ultimately show ?case
    using step run props(1-4) by auto
qed


lemma wf_inj: "wf_graph g \<Longrightarrow> inj_on ID (set (Nodes g))"
proof (rule inj_onI)
  fix x y
  assume wf: "wf_graph g" and x: "x \<in> set (Nodes g)" and y: "y \<in> set (Nodes g)" and eq: "ID x = ID y"
  from wf x have "Node g (ID x) = Some x"
    by (simp add: wf_Nodes_iff)
  moreover from wf y have "Node g (ID y) = Some y"
    by (simp add: wf_Nodes_iff)
  moreover from eq have "Node g (ID x) = Node g (ID y)"
    by (rule arg_cong)
  ultimately have "Some x = Some y"
    by (simp only:)
  then show "x = y"
    by simp
qed

lemma mem_edges_self:
  assumes "wf_graph g"
  shows "mem_edges g a a = None"
proof (cases "map_of (edges g) (ID a, ID a)")
  case None
  then show ?thesis
    by (simp add: mem_edges_def)
next
  case (Some w)
  from wf_edge_nodes [OF assms Some] show ?thesis
    by simp
qed

text \<open>What the loop over the routes of one location adds to its edges.\<close>

definition add_routes :: "string \<Rightarrow> (string \<rightharpoonup> weight) \<Rightarrow> (string \<times> weight) list \<Rightarrow> (string \<rightharpoonup> weight)" where
  "add_routes name m routes = foldl (\<lambda>m (t, w). if t = name then m else m(t \<mapsto> w)) m routes"

lemma add_routes_map_of:
  "distinct (map fst l) \<Longrightarrow> name \<notin> fst ` set l \<Longrightarrow> add_routes name m l = m ++ map_of l"
proof (induction l arbitrary: m)
  case Nil
  then show ?case by (simp add: add_routes_def)
next
  case (Cons e l)
  obtain t w where e: "e = (t, w)"
    by (cases e)
  have t: "t \<noteq> name" "map_of l t = None"
    using Cons.prems e by (auto simp: map_of_eq_None_iff)
  have "add_routes name m (e # l) = add_routes name (m(t \<mapsto> w)) l"
    using e t by (simp add: add_routes_def)
  also have "\<dots> = m(t \<mapsto> w) ++ map_of l"
    using Cons.prems by (intro Cons.IH) auto
  also have "\<dots> = m ++ map_of (e # l)"
    using t e by (auto simp: map_add_def split: option.splits)
  finally show ?case .
qed

lemma setRoutes_rebuild:
  assumes "wf_graph g" and "faults (redis rs) = []"
    and "wf_graph (graph rs)" and "set (Nodes (graph rs)) \<subseteq> set (Nodes g)"
    and "Node (graph rs) (ID name) = Some name"
    and "\<forall>(t, w) \<in> set routes. t \<noteq> name \<longrightarrow> Node g (ID t) = Some t \<and>
        map_of (edge_hash (redis rs) name) t = Some (FormatFloat sc w)"
  shows "\<exists>G. setRoutes sc name routes rs = (Return None, rs\<lparr>graph := G\<rparr>) \<and> wf_graph G \<and>
      set (Nodes G) = set (Nodes (graph rs)) \<union> {t \<in> fst ` set routes. t \<noteq> name} \<and>
      (\<forall>n. mem_edges G n = (if n = name then add_routes name (mem_edges (graph rs) name) routes
          else mem_edges (graph rs) n))"
  using assms(2-6)
proof (induction routes arbitrary: rs)
  case Nil
  have "rs\<lparr>graph := graph rs\<rparr> = rs"
    by simp
  with Nil show ?case
    by (auto simp: add_routes_def intro!: exI [where x = "graph rs"])
next
  case (Cons e routes)
  obtain t w where e: "e = (t, w)"
    by (cases e)
  have rest: "\<forall>(t, w) \<in> set routes. t \<noteq> name \<longrightarrow> Node g (ID t) = Some t \<and>
        map_of (edge_hash (redis rs) name) t = Some (FormatFloat sc w)"
    using Cons.prems(5) by simp
  show ?case
  proof (cases "t = name")
    case True
    from Cons.IH [OF Cons.prems(1,2,3,4) rest] obtain G where
      "setRoutes sc name routes rs = (Return None, rs\<lparr>graph := G\<rparr>)" "wf_graph G"
      "set (Nodes G) = set (Nodes (graph rs)) \<union> {t \<in> fst ` set routes. t \<noteq> name}"
      "\<forall>n. mem_edges G n = (if n = name then add_routes name (mem_edges (graph rs) name) routes
          else mem_edges (graph rs) n)"
      by blast
    with True e show ?thesis
      by (auto simp: add_routes_def intro!: exI [where x = G])
  next
    case False
    let ?G = "graph rs"
    have inj: "inj_on ID (set (Nodes g))"
      using assms(1) by (rule wf_inj)
    have tg: "Node g (ID t) = Some t" and th: "map_of (edge_hash (redis rs) name) t = Some (FormatFloat sc w)"
      using Cons.prems(5) e False by auto
    have nU: "name \<in> set (Nodes g)"
      using Cons.prems(2,3,4) by (auto simp: wf_Nodes_iff)
    have tU: "t \<in> set (Nodes g)"
      using assms(1) tg by (simp add: wf_Nodes_iff)
    have ne: "ID name \<noteq> ID t"
      using inj nU tU False by (auto dest: inj_onD)
    obtain G1 where G1: "SetWeightedEdge ?G name t w = Return G1"
      using ne by (simp add: SetWeightedEdge_def)
    have d: "Do (redis rs) (HSET name t (FormatFloat sc w)) = (Inr (Integer 0), redis rs)"
      using Do_HSET_same [OF Cons.prems(1) th] .
    define rs1 where "rs1 = rs\<lparr>graph := G1\<rparr>"
    have "rs\<lparr>graph := G1, redis := redis rs\<rparr> = rs1"
      by (simp add: rs1_def)
    moreover have "rs1\<lparr>redis := redis rs\<rparr> = rs1"
      by (simp add: rs1_def)
    ultimately have step: "setRoutes sc name (e # routes) rs = setRoutes sc name routes rs1"
      using e False G1 d by simp
    have wf1: "wf_graph G1"
      using Cons.prems(2) G1 by (rule wf_SetWeightedEdge)
    have to_node: "Node ?G (ID t) = None \<or> Node ?G (ID t) = Some t"
      using known_unique [OF Cons.prems(2) inj Cons.prems(3) tU] by (cases "Node ?G (ID t)") auto
    have Ns1: "set (Nodes G1) = insert t (set (Nodes ?G))"
      using Nodes_SetWeightedEdge [OF Cons.prems(2) G1 Cons.prems(4) to_node] .
    have M1: "mem_edges G1 n = (if n = name then (mem_edges ?G name)(t \<mapsto> w) else mem_edges ?G n)" for n
      using mem_edges_SetWeightedEdge [OF Cons.prems(2) inj Cons.prems(3) nU tU Cons.prems(4) G1] .
    have k1: "Node G1 (ID name) = Some name"
      using Node_SetWeightedEdge [OF G1] ne by simp
    have sub1: "set (Nodes (graph rs1)) \<subseteq> set (Nodes g)"
      using Cons.prems(3) tU by (simp add: rs1_def Ns1)
    have rest1: "\<forall>(t, w) \<in> set routes. t \<noteq> name \<longrightarrow> Node g (ID t) = Some t \<and>
        map_of (edge_hash (redis rs1) name) t = Some (FormatFloat sc w)"
      using rest by (simp add: rs1_def)
    from Cons.IH [of rs1, OF _ _ sub1 _ rest1] wf1 k1 Cons.prems(1)
    obtain G where G: "setRoutes sc name routes rs1 = (Return None, rs1\<lparr>graph := G\<rparr>)" "wf_graph G"
      "set (Nodes G) = set (Nodes G1) \<union> {t \<in> fst ` set routes. t \<noteq> name}"
      "\<forall>n. mem_edges G n = (if n = name then add_routes name (mem_edges G1 name) routes
          else mem_edges G1 n)"
      by (auto simp: rs1_def)
    have "setRoutes sc name (e # routes) rs = (Return None, rs\<lparr>graph := G\<rparr>)"
      using step G(1) by (simp add: rs1_def)
    moreover have "\<forall>n. mem_edges G n = (if n = name then add_routes name (mem_edges ?G name) (e # routes)
          else mem_edges ?G n)"
      using G(4) e False by (simp add: M1 add_routes_def)
    moreover have "set (Nodes G) = set (Nodes ?G) \<union> {t \<in> fst ` set (e # routes). t \<noteq> name}"
      using G(3) Ns1 e False by auto
    ultimately show ?thesis
      using G(2) by (auto intro!: exI [where x = G])
  qed
qed

lemma AddRoutes_rebuild:
  assumes "wf_graph g" and "faults (redis ret) = []" and "\<not> locked ret"
    and "wf_graph (graph ret)" and "set (Nodes (graph ret)) \<subseteq> set (Nodes g)"
    and "Node (graph ret) (ID frm) = Some frm"
    and "\<forall>(t, w) \<in> set linked. t \<noteq> frm \<longrightarrow> Node g (ID t) = Some t \<and>
        map_of (edge_hash (redis ret) frm) t = Some (FormatFloat sc w)"
  shows "\<exists>G. AddRoutes sc ret frm linked = Some (Return None, ret\<lparr>graph := G\<rparr>) \<and> wf_graph G \<and>
      set (Nodes G) = set (Nodes (graph ret)) \<union> {t \<in> fst ` set linked. t \<noteq> frm} \<and>
      (\<forall>n. mem_edges G n = (if n = frm then add_routes frm (mem_edges (graph ret) frm) linked
          else mem_edges (graph ret) n))"
proof -
  let ?rs = "ret\<lparr>locked := True\<rparr>"
  from setRoutes_rebuild [OF assms(1), of ?rs frm linked sc] assms(2,4,5,6,7)
  obtain G where G: "setRoutes sc frm linked ?rs = (Return None, ?rs\<lparr>graph := G\<rparr>)" "wf_graph G"
    "set (Nodes G) = set (Nodes (graph ret)) \<union> {t \<in> fst ` set linked. t \<noteq> frm}"
    "\<forall>n. mem_edges G n = (if n = frm then add_routes frm (mem_edges (graph ret) frm) linked
          else mem_edges (graph ret) n)"
    by auto
  have "Unlock (?rs\<lparr>graph := G\<rparr>) = ret\<lparr>graph := G\<rparr>"
    using assms(3) by (cases ret) (simp add: Unlock_def)
  then have "AddRoutes sc ret frm linked = Some (Return None, ret\<lparr>graph := G\<rparr>)"
    using assms(3,6) G(1) by (simp add: AddRoutes_def locking_def Lock_def)
  with G(2,3,4) show ?thesis
    by (auto intro!: exI [where x = G])
qed

lemma restoreRoutes_rebuild:
  assumes "faults c = []" and "wf_graph g"
    and "\<forall>n. map_of (edge_hash c n) = map_option (FormatFloat sc) \<circ> mem_edges g n"
    and "\<not> locked ret" and "redis ret = c" and "wf_graph (graph ret)"
    and "set (Nodes (graph ret)) \<subseteq> set (Nodes g)"
    and "distinct (map fst rts)"
    and "\<forall>(frm, linked) \<in> set rts. frm \<in> set (Nodes (graph ret)) \<and> distinct (map fst linked) \<and>
        map_of linked = mem_edges g frm"
    and "\<forall>frm \<in> fst ` set rts. mem_edges (graph ret) frm = Map.empty"
  shows "\<exists>ret1. restoreRoutes sc rts err ret = Some (Return (Some ret1, None)) \<and>
      \<not> locked ret1 \<and> redis ret1 = c \<and> wf_graph (graph ret1) \<and>
      set (Nodes (graph ret1)) =
        set (Nodes (graph ret)) \<union> {t. \<exists>frm \<in> fst ` set rts. mem_edges g frm t \<noteq> None} \<and>
      (\<forall>n. mem_edges (graph ret1) n = (if n \<in> fst ` set rts then mem_edges g n else mem_edges (graph ret) n))"
  using assms(4-10)
proof (induction rts arbitrary: ret)
  case Nil
  then show ?case by simp
next
  case (Cons e rts)
  obtain frm linked where e: "e = (frm, linked)"
    by (cases e)
  have frm: "frm \<in> set (Nodes (graph ret))" and dl: "distinct (map fst linked)"
    and ml: "map_of linked = mem_edges g frm"
    using Cons.prems(6) e by auto
  have kn: "Node (graph ret) (ID frm) = Some frm"
    using frm Cons.prems(3) by (simp add: wf_Nodes_iff)
  have ok: "\<forall>(t, w) \<in> set linked. t \<noteq> frm \<longrightarrow> Node g (ID t) = Some t \<and>
        map_of (edge_hash (redis ret) frm) t = Some (FormatFloat sc w)"
  proof (intro ballI, clarify)
    fix t w assume "(t, w) \<in> set linked"
    with dl have "map_of linked t = Some w"
      by simp
    then have m: "mem_edges g frm t = Some w"
      by (simp add: ml)
    then have "Node g (ID t) = Some t"
      by (simp add: mem_edges_def split: if_splits)
    moreover have "map_of (edge_hash c frm) t = Some (FormatFloat sc w)"
      using assms(3) m by simp
    ultimately show "Node g (ID t) = Some t \<and>
        map_of (edge_hash (redis ret) frm) t = Some (FormatFloat sc w)"
      using Cons.prems(2) by simp
  qed
  have nf: "faults (redis ret) = []"
    using assms(1) Cons.prems(2) by simp
  from AddRoutes_rebuild [OF assms(2) nf Cons.prems(1,3,4) kn ok]
  obtain G where G: "AddRoutes sc ret frm linked = Some (Return None, ret\<lparr>graph := G\<rparr>)" "wf_graph G"
    "set (Nodes G) = set (Nodes (graph ret)) \<union> {t \<in> fst ` set linked. t \<noteq> frm}"
    "\<forall>n. mem_edges G n = (if n = frm then add_routes frm (mem_edges (graph ret) frm) linked
          else mem_edges (graph ret) n)"
    by auto
  define ret1 where "ret1 = ret\<lparr>graph := G\<rparr>"
  have step: "restoreRoutes sc (e # rts) err ret = restoreRoutes sc rts err ret1"
    using e G(1) by (simp add: ret1_def)
  have notself: "frm \<notin> fst ` set linked"
  proof
    assume "frm \<in> fst ` set linked"
    then have "map_of linked frm \<noteq> None"
      by (simp add: map_of_eq_None_iff)
    then show False
      using mem_edges_self [OF assms(2), of frm] by (simp add: ml)
  qed
  then have "add_routes frm Map.empty linked = mem_edges g frm"
    using add_routes_map_of [OF dl, of frm Map.empty] by (simp add: ml)
  moreover have "mem_edges (graph ret) frm = Map.empty"
    using Cons.prems(7) e by simp
  ultimately have M: "mem_edges G n = (if n = frm then mem_edges g frm else mem_edges (graph ret) n)" for n
    using G(4) by simp
  have tg: "fst ` set linked = {t. mem_edges g frm t \<noteq> None}"
  proof -
    have "fst ` set linked = dom (map_of linked)"
      by (simp add: dom_map_of_conv_image_fst)
    then show ?thesis
      by (auto simp: ml)
  qed
  have NG: "set (Nodes G) = set (Nodes (graph ret)) \<union> {t. mem_edges g frm t \<noteq> None}"
    using G(3) notself tg by auto
  have subG: "set (Nodes (graph ret1)) \<subseteq> set (Nodes g)"
  proof -
    have "t \<in> set (Nodes g)" if "mem_edges g frm t \<noteq> None" for t
      using that assms(2) by (auto simp: mem_edges_def wf_Nodes_iff split: if_splits)
    with Cons.prems(4) show ?thesis
      by (auto simp: ret1_def NG)
  qed
  have d': "distinct (map fst rts)" and notin: "frm \<notin> fst ` set rts"
    using Cons.prems(5) e by auto
  have p6: "\<forall>(frm, linked) \<in> set rts. frm \<in> set (Nodes (graph ret1)) \<and> distinct (map fst linked) \<and>
        map_of linked = mem_edges g frm"
    using Cons.prems(6) by (auto simp: ret1_def NG)
  have p7: "\<forall>f \<in> fst ` set rts. mem_edges (graph ret1) f = Map.empty"
    using Cons.prems(7) notin by (auto simp: ret1_def M)
  from Cons.IH [of ret1, OF _ _ _ subG d' p6 p7] Cons.prems(1,2) G(2)
  obtain ret2 where r2: "restoreRoutes sc rts err ret1 = Some (Return (Some ret2, None))"
    "\<not> locked ret2" "redis ret2 = c" "wf_graph (graph ret2)"
    "set (Nodes (graph ret2)) =
        set (Nodes (graph ret1)) \<union> {t. \<exists>frm \<in> fst ` set rts. mem_edges g frm t \<noteq> None}"
    "\<forall>n. mem_edges (graph ret2) n = (if n \<in> fst ` set rts then mem_edges g n else mem_edges (graph ret1) n)"
    by (auto simp: ret1_def)
  have "\<forall>n. mem_edges (graph ret2) n = (if n \<in> fst ` set (e # rts) then mem_edges g n
      else mem_edges (graph ret) n)"
    using r2(6) e by (simp add: ret1_def M)
  moreover have "set (Nodes (graph ret2)) =
      set (Nodes (graph ret)) \<union> {t. \<exists>frm \<in> fst ` set (e # rts). mem_edges g frm t \<noteq> None}"
    using r2(5) e by (auto simp: ret1_def NG)
  ultimately show ?case
    using step r2(1-4) by auto
qed

lemma Restore_mirrored:
  assumes "mirrored sc rs"
    and "faults (redis rs) = []"
    and "\<forall>h. keys (redis rs) locations_set \<noteq> Some (RHash h)"
    and "\<forall>n \<in> set (location_names (redis rs)). \<forall>ms. keys (redis rs) n \<noteq> Some (RSet ms)"
    and "\<forall>a \<in> set (location_names (redis rs)). \<forall>b w. mem_edges (graph rs) a b = Some w \<longrightarrow>
        ParseFloat sc (FormatFloat sc w) = Some w"
  shows "\<exists>rs1. Restore sc (redis rs) = Some (Return (Some rs1, None)) \<and>
      redis rs1 = redis rs \<and> \<not> locked rs1 \<and> wf_graph (graph rs1) \<and>
      set (Nodes (graph rs1)) = set (location_names (redis rs)) \<union>
        {t. \<exists>a \<in> set (location_names (redis rs)). mem_edges (graph rs) a t \<noteq> None} \<and>
      (\<forall>a. mem_edges (graph rs1) a =
        (if a \<in> set (location_names (redis rs)) then mem_edges (graph rs) a else Map.empty))"
proof -
  define c where "c = redis rs"
  define g where "g = graph rs"
  define L where "L = location_names c"
  have wf: "wf_graph g"
    and mir: "\<forall>n. map_of (edge_hash c n) = map_option (FormatFloat sc) \<circ> mem_edges g n"
    and dis: "\<forall>n. distinct (map fst (edge_hash c n))"
    and sub: "set L \<subseteq> set (Nodes g)"
    using assms(1) by (simp_all add: mirrored_def c_def g_def L_def)
  have nf: "faults c = []"
    using assms(2) by (simp add: c_def)
  have parse_ok: "ParseFloat sc v = mem_edges g n k \<and> ParseFloat sc v \<noteq> None"
    if "(k, v) \<in> set (edge_hash c n)" and "n \<in> set L" for n k v
  proof -
    from that(1) dis have "map_of (edge_hash c n) k = Some v"
      by simp
    with mir have "map_option (FormatFloat sc) (mem_edges g n k) = Some v"
      by simp
    then obtain w where w: "mem_edges g n k = Some w" and v: "v = FormatFloat sc w"
      by auto
    with assms(5) that(2) show ?thesis
      by (simp add: g_def L_def c_def)
  qed
  have parsed_ok: "parseEdges sc (edge_hash c n) [] = Inr (parsed sc c n) \<and>
      map_of (parsed sc c n) = mem_edges g n \<and> distinct (map fst (parsed sc c n))" if "n \<in> set L" for n
  proof -
    have p: "\<forall>(k, v) \<in> set (edge_hash c n). ParseFloat sc v \<noteq> None"
      using parse_ok [OF _ that] by fastforce
    from parseEdges_ok [OF dis [rule_format] p, of "[]"] obtain al
      where al: "parseEdges sc (edge_hash c n) [] = Inr al"
        and m: "map_of al = (\<lambda>t. case map_of (edge_hash c n) t of Some v \<Rightarrow> ParseFloat sc v | None \<Rightarrow> map_of [] t)"
        and d: "distinct (map fst al)"
      by auto
    have "map_of al t = mem_edges g n t" for t
    proof (cases "map_of (edge_hash c n) t")
      case None
      with mir show ?thesis
        by (auto simp: m)
    next
      case (Some v)
      then have "(t, v) \<in> set (edge_hash c n)"
        by (rule map_of_SomeD)
      from parse_ok [OF this that] Some show ?thesis
        by (simp add: m)
    qed
    then have "map_of al = mem_edges g n"
      by (rule ext)
    with al d show ?thesis
      by (simp add: parsed_def)
  qed
  have sm: "Do c (SMEMBERS locations_set) = (Inr (Bulks L), c)"
    using Do_SMEMBERS [OF nf] assms(3) by (simp add: c_def L_def)
  have p5: "\<forall>n \<in> set L. (\<forall>ms. keys c n \<noteq> Some (RSet ms)) \<and> distinct (map fst (edge_hash c n)) \<and>
        (\<forall>(k, v) \<in> set (edge_hash c n). ParseFloat sc v \<noteq> None)"
  proof (rule ballI)
    fix n assume n: "n \<in> set L"
    then have 1: "\<forall>ms. keys c n \<noteq> Some (RSet ms)"
      using assms(4) by (simp add: c_def L_def)
    have 2: "distinct (map fst (edge_hash c n))"
      using dis by simp
    have 3: "\<forall>(k, v) \<in> set (edge_hash c n). ParseFloat sc v \<noteq> None"
      using parse_ok [OF _ n] by fastforce
    from 1 2 3 show "(\<forall>ms. keys c n \<noteq> Some (RSet ms)) \<and> distinct (map fst (edge_hash c n)) \<and>
        (\<forall>(k, v) \<in> set (edge_hash c n). ParseFloat sc v \<noteq> None)"
      by (intro conjI)
  qed
  have N0: "set (Nodes (graph (New c))) = {}"
    by (simp add: New_def NewWeightedDirectedGraph_def Nodes_def)
  have inj0: "inj_on ID (set (Nodes (graph (New c))) \<union> set L)"
    using inj_on_subset [OF wf_inj [OF wf] sub] by (simp add: N0)
  have subL: "set L \<subseteq> set (location_names c)"
    by (simp add: L_def)
  have q: "\<not> locked (New c)" "redis (New c) = c" "wf_graph (graph (New c))" "edges (graph (New c)) = []"
    using wf_graph_empty by (simp_all add: New_def NewWeightedDirectedGraph_def)
  from restoreLocations_ok [OF q(1,2) nf subL p5 q(3,4) inj0, of "[]"]
  obtain ret1 routes1 where
    l1: "restoreLocations sc L [] (New c) = Some (Return (Inr routes1), ret1)"
    and r1: "\<not> locked ret1" "redis ret1 = c" "wf_graph (graph ret1)" "edges (graph ret1) = []"
    and r15: "set (Nodes (graph ret1)) = set (Nodes (graph (New c))) \<union> set L"
    and rt0: "\<forall>n. map_of routes1 n = (if n \<in> set L then Some (parsed sc c n) else map_of [] n)"
    and drt0: "distinct (map fst ([] :: (string \<times> (string \<times> weight) list) list)) \<longrightarrow> distinct (map fst routes1)"
    by blast
  have r1': "set (Nodes (graph ret1)) = set L"
    using r15 by (simp add: N0)
  have rt: "\<forall>n. map_of routes1 n = (if n \<in> set L then Some (parsed sc c n) else None)"
    using rt0 by simp
  have drt: "distinct (map fst routes1)"
    using drt0 by simp
  have sub1: "set (Nodes (graph ret1)) \<subseteq> set (Nodes g)"
    using r1' sub by simp
  have p9: "\<forall>(frm, linked) \<in> set routes1. frm \<in> set (Nodes (graph ret1)) \<and> distinct (map fst linked) \<and>
        map_of linked = mem_edges g frm"
  proof (intro ballI, clarify)
    fix frm linked assume "(frm, linked) \<in> set routes1"
    with drt have "map_of routes1 frm = Some linked"
      by simp
    with rt have "frm \<in> set L" and "linked = parsed sc c frm"
      by (auto split: if_splits)
    then show "frm \<in> set (Nodes (graph ret1)) \<and> distinct (map fst linked) \<and> map_of linked = mem_edges g frm"
      using parsed_ok [of frm] r1' by simp
  qed
  have p10: "\<forall>frm \<in> fst ` set routes1. mem_edges (graph ret1) frm = Map.empty"
    using mem_edges_no_edges [OF r1(4)] by simp
  from restoreRoutes_rebuild [OF nf wf mir r1(1,2,3) sub1 drt p9 p10, of None]
  obtain ret2 where l2: "restoreRoutes sc routes1 None ret1 = Some (Return (Some ret2, None))"
    and r2: "\<not> locked ret2" "redis ret2 = c" "wf_graph (graph ret2)"
    and n2: "set (Nodes (graph ret2)) =
        set (Nodes (graph ret1)) \<union> {t. \<exists>frm \<in> fst ` set routes1. mem_edges g frm t \<noteq> None}"
    and m2: "\<forall>n. mem_edges (graph ret2) n = (if n \<in> fst ` set routes1 then mem_edges g n
        else mem_edges (graph ret1) n)"
    by blast
  have keys1: "fst ` set routes1 = set L"
  proof (rule set_eqI)
    fix n
    have "n \<in> fst ` set routes1 \<longleftrightarrow> map_of routes1 n \<noteq> None"
      by (simp add: map_of_eq_None_iff)
    with rt show "n \<in> fst ` set routes1 \<longleftrightarrow> n \<in> set L"
      by simp
  qed
  have M2: "\<forall>a. mem_edges (graph ret2) a = (if a \<in> set L then mem_edges g a else Map.empty)"
    using m2 mem_edges_no_edges [OF r1(4)] by (simp add: keys1)
  have S2: "set (Nodes (graph ret2)) = set L \<union> {t. \<exists>a \<in> set L. mem_edges g a t \<noteq> None}"
    using n2 by (simp add: keys1 r1')
  have "(New c)\<lparr>redis := c\<rparr> = New c"
    by (simp add: New_def)
  with l1 have l1': "restoreLocations sc L [] ((New c)\<lparr>redis := c\<rparr>) = Some (Return (Inr routes1), ret1)"
    by simp
  have "Restore sc c = Some (Return (Some ret2, None))"
    using sm l2 q(2) by (simp add: Restore_def Let_def l1')
  with S2 M2 r2 show ?thesis
    unfolding c_def g_def L_def by blast
qed

text \<open>
  C9, amended: take a store created on an empty backend by calls of \<open>AddLocation\<close>,
  \<open>AddRoutes\<close> and \<open>RemoveRoutes\<close> that all returned without an error, with names whose
  identifiers do not collide. On a connection without faults, with the set key not held
  by a hash, no key of a member of the backend's set of location names held by a set, and
  weights whose text parses back to the weight, \<open>Restore\<close> on the backend of the store
  returns a store and no error, and leaves the backend as it was. The nodes of the
  restored store are the members of the backend's set (the names given to
  \<open>AddLocation\<close>) and the targets of the edges that leave them in memory; its edges are
  the edges that leave these members in memory, with their weights. So the restored
  store has the node set and the edge weights of the store before the restart exactly
  when every node in memory is a member of the backend's set or the target of an edge
  that leaves a member, and every edge in memory leaves a member.
\<close>

theorem Restore_after_successful_calls:
  assumes "keys c = Map.empty" and "inj_on ID (set (concat (map names_of ms)))"
    and "perform_all sc ms (New c) = Some rs"
    and "faults (redis rs) = []"
    and "\<forall>h. keys (redis rs) locations_set \<noteq> Some (RHash h)"
    and "\<forall>n \<in> set (location_names (redis rs)). \<forall>ms. keys (redis rs) n \<noteq> Some (RSet ms)"
    and "\<forall>a \<in> set (location_names (redis rs)). \<forall>b w. mem_edges (graph rs) a b = Some w \<longrightarrow>
        ParseFloat sc (FormatFloat sc w) = Some w"
  shows "\<exists>rs1. Restore sc (redis rs) = Some (Return (Some rs1, None)) \<and>
      redis rs1 = redis rs \<and> \<not> locked rs1 \<and>
      set (Nodes (graph rs1)) = set (location_names (redis rs)) \<union>
        {t. \<exists>a \<in> set (location_names (redis rs)). mem_edges (graph rs) a t \<noteq> None} \<and>
      (\<forall>a. mem_edges (graph rs1) a =
        (if a \<in> set (location_names (redis rs)) then mem_edges (graph rs) a else Map.empty)) \<and>
      (set (Nodes (graph rs1)) = set (Nodes (graph rs)) \<and> mem_edges (graph rs1) = mem_edges (graph rs) \<longleftrightarrow>
        (\<forall>n \<in> set (Nodes (graph rs)). n \<in> set (location_names (redis rs)) \<or>
           (\<exists>a \<in> set (location_names (redis rs)). mem_edges (graph rs) a n \<noteq> None)) \<and>
        (\<forall>a b. mem_edges (graph rs) a b \<noteq> None \<longrightarrow> a \<in> set (location_names (redis rs))))"
proof -
  let ?g = "graph rs" and ?L = "set (location_names (redis rs))"
  have m: "mirrored sc rs"
    using assms(1,2,3) by (rule successful_calls_mirrored)
  then have wf: "wf_graph ?g" and sub: "?L \<subseteq> set (Nodes ?g)"
    by (simp_all add: mirrored_def)
  from Restore_mirrored [OF m assms(4,5,6,7)]
  obtain rs1 where run: "Restore sc (redis rs) = Some (Return (Some rs1, None))"
    and r: "redis rs1 = redis rs" "\<not> locked rs1"
    and S: "set (Nodes (graph rs1)) = ?L \<union> {t. \<exists>a \<in> ?L. mem_edges ?g a t \<noteq> None}"
    and M: "\<forall>a. mem_edges (graph rs1) a = (if a \<in> ?L then mem_edges ?g a else Map.empty)"
    by blast
  have tg: "t \<in> set (Nodes ?g)" if "mem_edges ?g a t \<noteq> None" for a t
    using that wf by (auto simp: mem_edges_def wf_Nodes_iff split: if_splits)
  have "set (Nodes (graph rs1)) = set (Nodes ?g) \<and> mem_edges (graph rs1) = mem_edges ?g \<longleftrightarrow>
        (\<forall>n \<in> set (Nodes ?g). n \<in> ?L \<or> (\<exists>a \<in> ?L. mem_edges ?g a n \<noteq> None)) \<and>
        (\<forall>a b. mem_edges ?g a b \<noteq> None \<longrightarrow> a \<in> ?L)"
  proof
    assume eq: "set (Nodes (graph rs1)) = set (Nodes ?g) \<and> mem_edges (graph rs1) = mem_edges ?g"
    have "\<forall>n \<in> set (Nodes ?g). n \<in> ?L \<or> (\<exists>a \<in> ?L. mem_edges ?g a n \<noteq> None)"
      using eq S by auto
    moreover have "a \<in> ?L" if "mem_edges ?g a b \<noteq> None" for a b
    proof (rule ccontr)
      assume "a \<notin> ?L"
      with M have "mem_edges (graph rs1) a = Map.empty"
        by simp
      with eq that show False
        by simp
    qed
    ultimately show "(\<forall>n \<in> set (Nodes ?g). n \<in> ?L \<or> (\<exists>a \<in> ?L. mem_edges ?g a n \<noteq> None)) \<and>
        (\<forall>a b. mem_edges ?g a b \<noteq> None \<longrightarrow> a \<in> ?L)"
      by blast
  next
    assume c: "(\<forall>n \<in> set (Nodes ?g). n \<in> ?L \<or> (\<exists>a \<in> ?L. mem_edges ?g a n \<noteq> None)) \<and>
        (\<forall>a b. mem_edges ?g a b \<noteq> None \<longrightarrow> a \<in> ?L)"
    have "set (Nodes (graph rs1)) = set (Nodes ?g)"
    proof (intro equalityI subsetI)
      fix x assume "x \<in> set (Nodes (graph rs1))"
      with S have "x \<in> ?L \<or> (\<exists>a \<in> ?L. mem_edges ?g a x \<noteq> None)"
        by blast
      with sub tg show "x \<in> set (Nodes ?g)"
        by blast
    next
      fix x assume "x \<in> set (Nodes ?g)"
      with c have "x \<in> ?L \<or> (\<exists>a \<in> ?L. mem_edges ?g a x \<noteq> None)"
        by blast
      with S show "x \<in> set (Nodes (graph rs1))"
        by blast
    qed
    moreover have "mem_edges (graph rs1) a = mem_edges ?g a" for a
    proof (cases "a \<in> ?L")
      case True
      with M show ?thesis by simp
    next
      case False
      with c have "mem_edges ?g a b = None" for b
        by blast
      then have "mem_edges ?g a = Map.empty"
        by (intro ext)
      with False M show ?thesis
        by simp
    qed
    then have "mem_edges (graph rs1) = mem_edges ?g"
      by (rule ext)
    ultimately show "set (Nodes (graph rs1)) = set (Nodes ?g) \<and> mem_edges (graph rs1) = mem_edges ?g"
      by simp
  qed
  with run r S M show ?thesis
    by blast
qed

theorem Restore_after_successful_calls_witness:
  "keys fresh = Map.empty \<and>
   inj_on ID (set (concat (map names_of [AddLocationCall ''A'' [(''B'', 1), (''C'', 4)]]))) \<and>
   perform_all decimal [AddLocationCall ''A'' [(''B'', 1), (''C'', 4)]] (New fresh) = Some storeABC \<and>
   faults (redis storeABC) = [] \<and>
   (\<forall>h. keys (redis storeABC) locations_set \<noteq> Some (RHash h)) \<and>
   location_names (redis storeABC) = [''A''] \<and>
   (\<forall>ms. keys (redis storeABC) ''A'' \<noteq> Some (RSet ms)) \<and>
   ParseFloat decimal (FormatFloat decimal 1) = Some 1 \<and>
   ParseFloat decimal (FormatFloat decimal 4) = Some 4 \<and>
   Nodes (graph storeABC) = [''A'', ''B'', ''C''] \<and>
   mem_edges (graph storeABC) ''A'' ''B'' = Some 1 \<and>
   mem_edges (graph storeABC) ''A'' ''C'' = Some 4 \<and>
   (\<exists>rs1. Restore decimal (redis storeABC) = Some (Return (Some rs1, None)) \<and>
      redis rs1 = redis storeABC \<and> \<not> locked rs1 \<and>
      set (Nodes (graph rs1)) = set (Nodes (graph storeABC)) \<and>
      mem_edges (graph rs1) = mem_edges (graph storeABC))"
proof -
  let ?ms = "[AddLocationCall ''A'' [(''B'', 1), (''C'', 4)]]"
  have h1: "keys fresh = Map.empty"
    by (simp add: fresh_def)
  have h2: "inj_on ID (set (concat (map names_of ?ms)))"
    by (simp add: ID_A ID_B ID_C)
  have h3: "perform_all decimal ?ms (New fresh) = Some storeABC"
    by (simp add: scenario_A)
  have L: "location_names (redis storeABC) = [''A'']"
    by (simp add: storeABC_def location_names_def locations_set_def)
  have h4: "faults (redis storeABC) = []"
    and h5: "\<forall>h. keys (redis storeABC) locations_set \<noteq> Some (RHash h)"
    by (simp_all add: storeABC_def locations_set_def)
  have h6: "\<forall>n \<in> set (location_names (redis storeABC)). \<forall>ms. keys (redis storeABC) n \<noteq> Some (RSet ms)"
    unfolding L by (simp add: storeABC_def locations_set_def)
  have p: "ParseFloat decimal (FormatFloat decimal 1) = Some 1"
    "ParseFloat decimal (FormatFloat decimal 4) = Some 4"
    by (simp_all add: decimal_def)
  have h7: "\<forall>a \<in> set (location_names (redis storeABC)). \<forall>b w. mem_edges (graph storeABC) a b = Some w \<longrightarrow>
        ParseFloat decimal (FormatFloat decimal w) = Some w"
  proof (intro ballI allI impI)
    fix a b w assume "mem_edges (graph storeABC) a b = Some w"
    then have "w = 1 \<or> w = 4"
      by (simp add: mem_edges_def storeABC_def split: if_splits)
    with p show "ParseFloat decimal (FormatFloat decimal w) = Some w"
      by auto
  qed
  have N: "Nodes (graph storeABC) = [''A'', ''B'', ''C'']"
    by (simp add: storeABC_def Nodes_def)
  have e: "mem_edges (graph storeABC) ''A'' ''B'' = Some 1" "mem_edges (graph storeABC) ''A'' ''C'' = Some 4"
    by (simp_all add: mem_edges_def storeABC_def Node_def ID_A ID_B ID_C)
  have c1: "\<forall>n \<in> set (Nodes (graph storeABC)). n \<in> set (location_names (redis storeABC)) \<or>
      (\<exists>a \<in> set (location_names (redis storeABC)). mem_edges (graph storeABC) a n \<noteq> None)"
    by (simp add: N L e)
  have c2: "\<forall>a b. mem_edges (graph storeABC) a b \<noteq> None \<longrightarrow> a \<in> set (location_names (redis storeABC))"
  proof (intro allI impI)
    fix a b assume "mem_edges (graph storeABC) a b \<noteq> None"
    then have "Node (graph storeABC) (ID a) = Some a" and "ID a = ID ''A''"
      by (auto simp: mem_edges_def storeABC_def ID_A ID_B ID_C split: if_splits)
    then have "a = ''A''"
      by (simp add: storeABC_def Node_def ID_A)
    then show "a \<in> set (location_names (redis storeABC))"
      by (simp add: L)
  qed
  from Restore_after_successful_calls [OF h1 h2 h3 h4 h5 h6 h7] c1 c2
  have "\<exists>rs1. Restore decimal (redis storeABC) = Some (Return (Some rs1, None)) \<and>
      redis rs1 = redis storeABC \<and> \<not> locked rs1 \<and>
      set (Nodes (graph rs1)) = set (Nodes (graph storeABC)) \<and>
      mem_edges (graph rs1) = mem_edges (graph storeABC)"
    by blast
  moreover have "\<forall>ms. keys (redis storeABC) ''A'' \<noteq> Some (RSet ms)"
    by (simp add: storeABC_def locations_set_def)
  ultimately show ?thesis
    using h1 h2 h3 h4 h5 L p N e by (intro conjI)
qed

end
